theory Spec2Isabelle
  imports Main "HOL-Library.AList"
begin

text \<open>
  A model of the Connect 4 package: the classes \<^verbatim>\<open>Game\<close>, \<^verbatim>\<open>State\<close>, \<^verbatim>\<open>StateView\<close>,
  \<^verbatim>\<open>Action\<close> and \<^verbatim>\<open>Outcome\<close> of \<^verbatim>\<open>connect4/game.py\<close> and the agent interface of
  \<^verbatim>\<open>connect4/_agents.py\<close>. The single-file script \<^verbatim>\<open>connect4.py\<close> is an earlier prototype
  of the same classes (actions and outcomes are dicts there, and it knows neither
  \<^verbatim>\<open>ActionError\<close> nor \<^verbatim>\<open>StateView\<close>); its state and its outcome check are modelled in a
  section of their own.
\<close>

section \<open>Python values and containers used by the game\<close>

text \<open>
  The exceptions that the modelled code can raise. \<open>ActionError\<close> is the class defined in
  \<^verbatim>\<open>game.py\<close>; the others are Python built-ins raised explicitly (\<open>TypeError\<close>,
  \<open>ValueError\<close>) or implicitly by indexing a list (\<open>IndexError\<close>), looking a key up in the
  token map (\<open>KeyError\<close>) or advancing an exhausted iterator (\<open>StopIteration\<close>).
\<close>

datatype error = TypeError | ValueError | ActionError | IndexError | KeyError | StopIteration

text \<open>
  \<^verbatim>\<open>xs[i]\<close> and \<^verbatim>\<open>xs[i] = v\<close> for a Python list and an integer index: an index in
  \<open>[-len, 0)\<close> counts from the end, anything outside \<open>[-len, len)\<close> raises \<open>IndexError\<close>.
\<close>

definition norm_index :: "nat \<Rightarrow> int \<Rightarrow> nat option" where
  "norm_index n i =
     (if 0 \<le> i \<and> i < int n then Some (nat i)
      else if - int n \<le> i \<and> i < 0 then Some (nat (i + int n))
      else None)"

definition getitem :: "'a list \<Rightarrow> int \<Rightarrow> error + 'a" where
  "getitem xs i = (case norm_index (length xs) i of
                     None \<Rightarrow> Inl IndexError
                   | Some j \<Rightarrow> Inr (xs ! j))"

definition setitem :: "'a list \<Rightarrow> int \<Rightarrow> 'a \<Rightarrow> error + 'a list" where
  "setitem xs i v = (case norm_index (length xs) i of
                       None \<Rightarrow> Inl IndexError
                     | Some j \<Rightarrow> Inr (xs[j := v]))"

text \<open>
  \<^verbatim>\<open>xs[start:stop:step]\<close> for the slices of \<^verbatim>\<open>_generate_lines\<close>, whose bounds are
  non-negative. \<open>slice_indices\<close> lists the positions the slice reads: \<open>start\<close>,
  \<open>start + step\<close>, \dots, below \<open>stop\<close> clipped to the length of the list (CPython computes
  the number of positions as \<open>(stop - start - 1) / step + 1\<close> when \<open>start < stop\<close>, else 0).
  Python raises \<open>ValueError\<close> for a step of zero; \<open>line_slices_step_positive\<close> below shows that
  no slice of \<^verbatim>\<open>_generate_lines\<close> has one.
\<close>

definition slice_indices :: "nat \<Rightarrow> nat \<Rightarrow> nat \<Rightarrow> nat \<Rightarrow> nat list" where
  "slice_indices len start stop step =
     map (\<lambda>k. start + k * step) [0 ..< (min stop len - start + step - 1) div step]"

definition slice :: "'a list \<Rightarrow> nat \<Rightarrow> nat \<Rightarrow> nat \<Rightarrow> 'a list" where
  "slice xs start stop step = map (\<lambda>i. xs ! i) (slice_indices (length xs) start stop step)"

text \<open>
  A dict comprehension \<^verbatim>\<open>{k: v for k, v in pairs}\<close>: a later pair with a key already
  present replaces the value and keeps the key's position.
\<close>

definition dict_comp :: "('k \<times> 'v) list \<Rightarrow> ('k \<times> 'v) list" where
  "dict_comp kvs = fold (\<lambda>(k, v). AList.update k v) kvs []"

text \<open>
  A \<^verbatim>\<open>bidict\<close> is kept as the list of its items; \<open>forward\<close> is \<^verbatim>\<open>m[k]\<close> and
  \<open>inverse\<close> is \<^verbatim>\<open>m.inverse[v]\<close>, each \<open>None\<close> where Python raises \<open>KeyError\<close>.
\<close>

type_synonym ('k, 'v) bidict = "('k \<times> 'v) list"

definition forward :: "('k, 'v) bidict \<Rightarrow> 'k \<Rightarrow> 'v option" where
  "forward m k = map_of m k"

definition inverse_of :: "('k, 'v) bidict \<Rightarrow> 'v \<Rightarrow> 'k option" where
  "inverse_of m v = map_of (map (\<lambda>(k, v). (v, k)) m) v"

section \<open>The game state (class State of game.py)\<close>

datatype outcomes = WIN | LOSE | DRAW

text \<open>
  The fields \<^verbatim>\<open>_token_map\<close>, \<^verbatim>\<open>_n_rows\<close>, \<^verbatim>\<open>_n_columns\<close> and \<^verbatim>\<open>_board\<close>.
  A cell is \<open>None\<close> (empty) or \<open>Some i\<close> with \<open>i\<close> an internal token id. The dimensions are
  naturals: \<^verbatim>\<open>State\<close> is only built by \<^verbatim>\<open>Game.play\<close>, from a board size that
  \<^verbatim>\<open>Game.__init__\<close> has checked to consist of integers \<open>\<ge> 1\<close>.
\<close>

record 'tok state =
  token_map :: "('tok, nat) bidict"
  n_rows :: nat
  n_columns :: nat
  board :: "nat option list"

text \<open>
  \<^verbatim>\<open>State.__init__\<close>. The values of the token map are the positions \<open>0, 1, \<dots>\<close>, so they
  are pairwise distinct (\<open>token_map_values_distinct\<close>) and the \<^verbatim>\<open>bidict\<close> constructor
  cannot reject them; a token that occurs twice keeps its last position.
\<close>

definition State_init :: "'tok list \<Rightarrow> nat \<times> nat \<Rightarrow> 'tok state" where
  "State_init external_tokens board_size =
     \<lparr> token_map = dict_comp (zip external_tokens [0 ..< length external_tokens]),
       n_rows = fst board_size,
       n_columns = snd board_size,
       board = replicate (fst board_size * snd board_size) None \<rparr>"

text \<open>
  The data-only class \<^verbatim>\<open>StateView\<close>; its field \<^verbatim>\<open>board\<close> is named \<open>view_board\<close>
  here, since \<open>board\<close> is the field of the state.
\<close>

record 'tok state_view =
  board_size :: "nat \<times> nat"
  view_board :: "'tok option list"

text \<open>The list comprehension of \<^verbatim>\<open>expose_view\<close>, cell by cell, stopping at a \<open>KeyError\<close>.\<close>

fun translate_cells :: "('tok, nat) bidict \<Rightarrow> nat option list \<Rightarrow> error + 'tok option list" where
  "translate_cells m [] = Inr []"
| "translate_cells m (None # cells) =
     (case translate_cells m cells of
        Inl e \<Rightarrow> Inl e
      | Inr ts \<Rightarrow> Inr (None # ts))"
| "translate_cells m (Some i # cells) =
     (case inverse_of m i of
        None \<Rightarrow> Inl KeyError
      | Some t \<Rightarrow> (case translate_cells m cells of
                    Inl e \<Rightarrow> Inl e
                  | Inr ts \<Rightarrow> Inr (Some t # ts)))"

definition expose_view :: "'tok state \<Rightarrow> error + 'tok state_view" where
  "expose_view s =
     (case translate_cells (token_map s) (board s) of
        Inl e \<Rightarrow> Inl e
      | Inr ts \<Rightarrow> Inr \<lparr> board_size = (n_rows s, n_columns s), view_board = ts \<rparr>)"

text \<open>
  The loop of \<^verbatim>\<open>place_token\<close> over \<^verbatim>\<open>range(self._n_rows)\<close>: rows are visited from the
  top (row 0); the loop breaks at the first occupied cell and otherwise remembers the row.
\<close>

fun scan_column :: "nat option list \<Rightarrow> nat \<Rightarrow> int \<Rightarrow> nat list \<Rightarrow> nat option \<Rightarrow> error + nat option" where
  "scan_column b ncols column [] lowest = Inr lowest"
| "scan_column b ncols column (row # rows) lowest =
     (case getitem b (int row * int ncols + column - 1) of
        Inl e \<Rightarrow> Inl e
      | Inr cell \<Rightarrow>
          if cell \<noteq> None then Inr lowest
          else scan_column b ncols column rows (Some row))"

text \<open>
  \<^verbatim>\<open>State.place_token\<close>. The result pairs what the call raised or returned with the state
  it leaves behind. The right-hand side \<^verbatim>\<open>self._token_map[token]\<close> of the assignment is
  evaluated before the store into the board.
\<close>

definition place_token :: "int \<Rightarrow> 'tok \<Rightarrow> 'tok state \<Rightarrow> (error + unit) \<times> 'tok state" where
  "place_token column tok s =
     (case scan_column (board s) (n_columns s) column [0 ..< n_rows s] None of
        Inl e \<Rightarrow> (Inl e, s)
      | Inr None \<Rightarrow> (Inl ActionError, s)
      | Inr (Some lowest_open_cell_in_column) \<Rightarrow>
          (case forward (token_map s) tok of
             None \<Rightarrow> (Inl KeyError, s)
           | Some i \<Rightarrow>
               (case setitem (board s)
                       (int lowest_open_cell_in_column * int (n_columns s) + column - 1) (Some i) of
                  Inl e \<Rightarrow> (Inl e, s)
                | Inr b \<Rightarrow> (Inr (), s\<lparr>board := b\<rparr>))))"

text \<open>
  The slices of \<^verbatim>\<open>_generate_lines\<close> as triples (start, stop, step), in the order the
  generator yields them: horizontal, vertical, diagonal \<^verbatim>\<open>\\<close>, diagonal \<^verbatim>\<open>/\<close>.
  \<^verbatim>\<open>range(n - 3)\<close> is empty for \<open>n \<le> 3\<close>, as \<open>[0 ..< n - 3]\<close> is.
\<close>

definition line_slices :: "nat \<Rightarrow> nat \<Rightarrow> (nat \<times> nat \<times> nat) list" where
  "line_slices nrows ncols =
     concat (map (\<lambda>row. map (\<lambda>column.
         (row * ncols + column, row * ncols + column + 4, 1))
       [0 ..< ncols - 3]) [0 ..< nrows])
   @ concat (map (\<lambda>row. map (\<lambda>column.
         (row * ncols + column, (row + 4) * ncols + column, ncols))
       [0 ..< ncols]) [0 ..< nrows - 3])
   @ concat (map (\<lambda>row. map (\<lambda>column.
         (row * ncols + column, (row + 4) * ncols + column + 4, ncols + 1))
       [0 ..< ncols - 3]) [0 ..< nrows - 3])
   @ concat (map (\<lambda>row. map (\<lambda>column.
         (row * ncols + column, (row + 4) * ncols + column - 4, ncols - 1))
       [3 ..< ncols]) [0 ..< nrows - 3])"

text \<open>The positions of the board read by each generated line.\<close>

definition line_indices :: "nat \<Rightarrow> nat \<Rightarrow> nat list list" where
  "line_indices nrows ncols =
     map (\<lambda>(start, stop, step). slice_indices (nrows * ncols) start stop step)
       (line_slices nrows ncols)"

definition generate_lines :: "'tok state \<Rightarrow> nat option list list" where
  "generate_lines s =
     map (\<lambda>(start, stop, step). slice (board s) start stop step)
       (line_slices (n_rows s) (n_columns s))"

text \<open>
  The test of \<^verbatim>\<open>check_for_outcome\<close> on one line:
  \<^verbatim>\<open>line[0] is not None and len(set(line)) == 1\<close>.
\<close>

definition winning_line :: "nat option list \<Rightarrow> bool" where
  "winning_line line = (line \<noteq> [] \<and> hd line \<noteq> None \<and> length (remdups line) = 1)"

text \<open>
  The \<^verbatim>\<open>for\<close> loop of \<^verbatim>\<open>check_for_outcome\<close>: it stops at the first winning line.
  \<^verbatim>\<open>line[0]\<close> raises \<open>IndexError\<close> on an empty line and the inverse lookup raises
  \<open>KeyError\<close> for an id that is not in the token map.
\<close>

fun scan_lines :: "('tok, nat) bidict \<Rightarrow> nat option list list \<Rightarrow>
                   error + (outcomes option \<times> 'tok option)" where
  "scan_lines m [] = Inr (None, None)"
| "scan_lines m ([] # lines) = Inl IndexError"
| "scan_lines m ((None # cells) # lines) = scan_lines m lines"
| "scan_lines m ((Some i # cells) # lines) =
     (if length (remdups (Some i # cells)) = 1
      then (case inverse_of m i of
              None \<Rightarrow> Inl KeyError
            | Some t \<Rightarrow> Inr (Some WIN, Some t))
      else scan_lines m lines)"

definition check_for_outcome :: "'tok state \<Rightarrow> error + (outcomes option \<times> 'tok option)" where
  "check_for_outcome s =
     (case scan_lines (token_map s) (generate_lines s) of
        Inl e \<Rightarrow> Inl e
      | Inr (outcome, winning_token) \<Rightarrow>
          Inr (if outcome = None \<and> None \<notin> set (board s) then Some DRAW else outcome,
               winning_token))"

section \<open>Properties of states\<close>

text \<open>
  What the data model says of a board: it has \<open>n_rows * n_columns\<close> cells and every occupied
  cell holds an internal id of the token map (one that \<^verbatim>\<open>_token_map.inverse\<close> knows).
\<close>

definition known_cell :: "('tok, nat) bidict \<Rightarrow> nat option \<Rightarrow> bool" where
  "known_cell m cell = (case cell of None \<Rightarrow> True | Some i \<Rightarrow> inverse_of m i \<noteq> None)"

definition board_ok :: "'tok state \<Rightarrow> bool" where
  "board_ok s = (length (board s) = n_rows s * n_columns s \<and>
                 list_all (known_cell (token_map s)) (board s))"

text \<open>
  A line with four identical non-empty cells, in the words of the specification (the code's
  test is \<open>winning_line\<close>).
\<close>

definition four_identical :: "'a option list \<Rightarrow> bool" where
  "four_identical line =
     (case line of
        [a, b, c, d] \<Rightarrow> a \<noteq> None \<and> b = a \<and> c = a \<and> d = a
      | _ \<Rightarrow> False)"

section \<open>Runs of four cells, as the specification describes them\<close>

text \<open>
  A cell is a pair (row, column), counted from 0, row 0 on top. A run starts at a cell and takes
  three further steps in one of four directions: right, down, down-right, down-left. It fits on
  the board when its four cells do. Coordinates are integers so that a step to the left of
  column 0 leaves the board instead of being truncated.
\<close>

definition on_board :: "nat \<Rightarrow> nat \<Rightarrow> int \<times> int \<Rightarrow> bool" where
  "on_board nrows ncols = (\<lambda>(r, c). 0 \<le> r \<and> r < int nrows \<and> 0 \<le> c \<and> c < int ncols)"

definition directions :: "(int \<times> int) list" where
  "directions = [(0, 1), (1, 0), (1, 1), (1, -1)]"

definition run_from :: "int \<times> int \<Rightarrow> int \<times> int \<Rightarrow> (int \<times> int) list" where
  "run_from p d = map (\<lambda>k. (fst p + int k * fst d, snd p + int k * snd d)) [0 ..< 4]"

definition runs :: "nat \<Rightarrow> nat \<Rightarrow> (int \<times> int) list set" where
  "runs nrows ncols =
     {run_from p d | p d. d \<in> set directions \<and> list_all (on_board nrows ncols) (run_from p d)}"

text \<open>The position of a cell in the flat row-major board.\<close>

definition flat_index :: "nat \<Rightarrow> int \<times> int \<Rightarrow> nat" where
  "flat_index ncols = (\<lambda>(r, c). nat (r * int ncols + c))"

text \<open>Four positions in arithmetic progression.\<close>

definition quad :: "nat \<Rightarrow> nat \<Rightarrow> nat list" where
  "quad start step = [start, start + step, start + 2 * step, start + 3 * step]"

section \<open>Actions, agents and outcomes\<close>

text \<open>
  The enum \<^verbatim>\<open>Actions\<close> has the single member \<open>PLACE\<close>. The field \<^verbatim>\<open>action\<close> of an
  \<^verbatim>\<open>Action\<close> can hold any Python object: a member of the enum or something else. The field
  \<^verbatim>\<open>place_column\<close> holds an integer or an object of another type (\<^verbatim>\<open>bool\<close> is a subclass
  of \<^verbatim>\<open>int\<close> in Python, so \<^verbatim>\<open>True\<close> and \<^verbatim>\<open>False\<close> are the integers 1 and 0).
\<close>

datatype actions = PLACE

datatype action_tag = Member actions | OtherTag

datatype pyval = PyInt int | PyOther

record game_action =
  action :: action_tag
  place_column :: pyval

text \<open>
  An agent has a token and an implementation of \<^verbatim>\<open>select_action\<close>. An agent may keep state,
  draw random numbers or read input, so its answer may depend on more than the view: the first
  argument is the number of \<^verbatim>\<open>select_action\<close> calls made before this one in the game.
  The method returns an \<^verbatim>\<open>Action\<close> object, whatever its fields hold; an implementation that
  raises instead is not modelled.
\<close>

record 'tok agent =
  token :: 'tok
  select_action :: "nat \<Rightarrow> 'tok state_view \<Rightarrow> game_action"

text \<open>
  The class \<^verbatim>\<open>Outcome\<close>: \<^verbatim>\<open>agent_outcomes\<close> is a dict from agents to a result (\<open>None\<close>
  until the game ends), kept as the list of its items in insertion order; the agents of a game are
  taken to be different objects, so each is a key of its own. The field \<^verbatim>\<open>record\<close> is named
  \<open>action_record\<close> here.
\<close>

record 'tok outcome =
  agent_outcomes :: "('tok agent \<times> outcomes option) list"
  action_record :: "('tok \<times> game_action) list"

definition Outcome_init :: "'tok agent list \<Rightarrow> 'tok outcome" where
  "Outcome_init ags = \<lparr> agent_outcomes = map (\<lambda>a. (a, None)) ags, action_record = [] \<rparr>"

definition append_to_record :: "'tok \<Rightarrow> game_action \<Rightarrow> 'tok outcome \<Rightarrow> 'tok outcome" where
  "append_to_record tok a out = out\<lparr>action_record := action_record out @ [(tok, a)]\<rparr>"

section \<open>The game (class Game of game.py)\<close>

text \<open>
  The fields \<^verbatim>\<open>_agents\<close> and \<^verbatim>\<open>_board_size\<close>. The board size is stored as a pair of
  naturals: the constructor has checked that it consists of two integers \<open>\<ge> 1\<close>.
\<close>

record 'tok game =
  agents :: "'tok agent list"
  game_board_size :: "nat \<times> nat"

text \<open>
  The arguments of the constructor as Python passes them: an argument is a list or tuple of
  elements, or an object of another type; an element of \<^verbatim>\<open>agents\<close> is an \<^verbatim>\<open>Agent\<close> or not.
\<close>

datatype 'a pyarg = Sequence "'a list" | NotSequence

datatype 'tok agent_arg = IsAgent "'tok agent" | NotAgent

text \<open>The two \<^verbatim>\<open>for\<close> loops of \<^verbatim>\<open>Game.__init__\<close>, each stopping at the first bad element.\<close>

fun check_agents :: "'tok agent_arg list \<Rightarrow> error + 'tok agent list" where
  "check_agents [] = Inr []"
| "check_agents (NotAgent # elements) = Inl TypeError"
| "check_agents (IsAgent a # elements) =
     (case check_agents elements of
        Inl e \<Rightarrow> Inl e
      | Inr ags \<Rightarrow> Inr (a # ags))"

fun check_board_size :: "pyval list \<Rightarrow> error + int list" where
  "check_board_size [] = Inr []"
| "check_board_size (PyOther # elements) = Inl TypeError"
| "check_board_size (PyInt element # elements) =
     (if element < 1 then Inl ValueError
      else (case check_board_size elements of
              Inl e \<Rightarrow> Inl e
            | Inr sizes \<Rightarrow> Inr (element # sizes)))"

definition Game_init :: "'tok agent_arg pyarg \<Rightarrow> pyval pyarg \<Rightarrow> error + 'tok game" where
  "Game_init agents_arg board_size_arg =
     (case agents_arg of
        NotSequence \<Rightarrow> Inl TypeError
      | Sequence elements \<Rightarrow>
          if length elements < 2 then Inl ValueError
          else (case check_agents elements of
                  Inl e \<Rightarrow> Inl e
                | Inr ags \<Rightarrow>
                    (case board_size_arg of
                       NotSequence \<Rightarrow> Inl TypeError
                     | Sequence sizes \<Rightarrow>
                         if length sizes \<noteq> 2 then Inl ValueError
                         else (case check_board_size sizes of
                                 Inl e \<Rightarrow> Inl e
                               | Inr checked \<Rightarrow>
                                   Inr \<lparr> agents = ags,
                                         game_board_size =
                                           (nat (checked ! 0), nat (checked ! 1)) \<rparr>))))"

text \<open>
  The three checks that \<^verbatim>\<open>play\<close> makes on the action an agent returned; what is returned on
  success is the column as an integer.
\<close>

definition check_action :: "nat \<Rightarrow> game_action \<Rightarrow> error + int" where
  "check_action ncols a =
     (if action a \<noteq> Member PLACE then Inl ValueError
      else (case place_column a of
              PyOther \<Rightarrow> Inl TypeError
            | PyInt column \<Rightarrow>
                if column < 1 \<or> column > int ncols then Inl ValueError
                else Inr column))"

text \<open>
  \<^verbatim>\<open>itertools.cycle\<close>: the iterator first hands out the elements of its argument, saving each,
  and then the saved elements again and again. \<open>cycle_next\<close> is \<^verbatim>\<open>next\<close>; \<open>None\<close> stands
  for \<open>StopIteration\<close> (the argument was empty).
\<close>

record 'a cycle =
  pending :: "'a list"
  saved :: "'a list"
  first_pass :: bool

definition cycle_init :: "'a list \<Rightarrow> 'a cycle" where
  "cycle_init xs = \<lparr> pending = xs, saved = [], first_pass = True \<rparr>"

definition cycle_next :: "'a cycle \<Rightarrow> ('a \<times> 'a cycle) option" where
  "cycle_next c =
     (case pending c of
        x # rest \<Rightarrow>
          Some (x, c\<lparr>pending := rest,
                     saved := (if first_pass c then saved c @ [x] else saved c)\<rparr>)
      | [] \<Rightarrow>
          (case saved c of
             [] \<Rightarrow> None
           | x # rest \<Rightarrow> Some (x, c\<lparr>pending := rest, first_pass := False\<rparr>)))"

text \<open>
  The local variables of \<^verbatim>\<open>play\<close>. \<open>asked\<close> is not a variable of the code: it lists, in
  order, the agents whose \<^verbatim>\<open>select_action\<close> has been called.
\<close>

record 'tok play_vars =
  l_agents :: "'tok agent cycle"
  l_state :: "'tok state"
  l_outcome :: "'tok outcome"
  asked :: "'tok agent list"

text \<open>How one pass through the body of the \<^verbatim>\<open>while True\<close> loop ends.\<close>

datatype flow = Raise error | Break | Continue

text \<open>
  The body of the loop. \<^verbatim>\<open>agent.token is result[1]\<close> compares the agent's token with the
  winning token; identity of tokens is modelled as equality.
\<close>

definition turn :: "'tok game \<Rightarrow> 'tok play_vars \<Rightarrow> flow \<times> 'tok play_vars" where
  "turn g v =
     (case cycle_next (l_agents v) of
        None \<Rightarrow> (Raise StopIteration, v)
      | Some (current_agent, it) \<Rightarrow>
          let v1 = v\<lparr>l_agents := it\<rparr> in
          (case expose_view (l_state v1) of
             Inl e \<Rightarrow> (Raise e, v1)
           | Inr view \<Rightarrow>
               let a = select_action current_agent (length (asked v1)) view;
                   v2 = v1\<lparr>asked := asked v1 @ [current_agent]\<rparr> in
               (case check_action (snd (game_board_size g)) a of
                  Inl e \<Rightarrow> (Raise e, v2)
                | Inr column \<Rightarrow>
                    (case place_token column (token current_agent) (l_state v2) of
                       (Inl e, s) \<Rightarrow> (Raise e, v2\<lparr>l_state := s\<rparr>)
                     | (Inr u, s) \<Rightarrow>
                         let v3 = v2\<lparr>l_state := s,
                                      l_outcome := append_to_record (token current_agent) a
                                                     (l_outcome v2)\<rparr> in
                         (case check_for_outcome s of
                            Inl e \<Rightarrow> (Raise e, v3)
                          | Inr result \<Rightarrow>
                              if fst result = Some WIN then
                                (Break, v3\<lparr>l_outcome := (l_outcome v3)\<lparr>agent_outcomes :=
                                   map (\<lambda>(ag, r). (ag, if Some (token ag) = snd result
                                                         then Some WIN else Some LOSE))
                                     (agent_outcomes (l_outcome v3))\<rparr>\<rparr>)
                              else if fst result = Some DRAW then
                                (Break, v3\<lparr>l_outcome := (l_outcome v3)\<lparr>agent_outcomes :=
                                   map (\<lambda>(ag, r). (ag, Some DRAW))
                                     (agent_outcomes (l_outcome v3))\<rparr>\<rparr>)
                              else (Continue, v3))))))"

text \<open>The number of empty cells of a board.\<close>

definition empty_cells :: "'tok state \<Rightarrow> nat" where
  "empty_cells s = length (filter (\<lambda>cell. cell = None) (board s))"

section \<open>The play loop\<close>

text \<open>
  The \<^verbatim>\<open>while True\<close> loop of \<^verbatim>\<open>play\<close>. Every pass that continues has placed a token, so
  the number of empty cells is a measure of termination.
\<close>

function play_loop :: "'tok game \<Rightarrow> 'tok play_vars \<Rightarrow> flow \<times> 'tok play_vars" where
  "play_loop g v =
     (if fst (turn g v) = Continue then play_loop g (snd (turn g v)) else turn g v)"
  by pat_completeness auto
termination
proof (relation "measure (\<lambda>(g, v). empty_cells (l_state v))")
  show "wf (measure (\<lambda>(g :: 'tok game, v). empty_cells (l_state v)))" by simp
next
  fix g :: "'tok game" and v :: "'tok play_vars"
  assume cont: "fst (turn g v) = Continue"
  have scan: "lowest = Some row \<or> getitem b (int row * int n + column - 1) = Inr None"
    if "scan_column b n column rows lowest = Inr (Some row)"
    for b :: "nat option list" and n column rows lowest row
    using that by (induction rows arbitrary: lowest) (auto split: sum.splits if_splits)
  have fewer: "Suc (length (filter (\<lambda>cell. cell = None) (b[j := Some i])))
                 = length (filter (\<lambda>cell. cell = None) b)"
    if "j < length b" "b ! j = None" for b :: "nat option list" and j i
    using that
  proof (induction b arbitrary: j)
    case Nil
    then show ?case by simp
  next
    case (Cons x xs)
    then show ?case by (cases j) auto
  qed
  have norm: "j < n" if "norm_index n i = Some j" for n i j
    using that by (auto simp: norm_index_def split: if_splits)
  have place: "empty_cells s' < empty_cells s"
    if "place_token column tok s = (Inr u, s')" for column tok and s s' :: "'tok state" and u
  proof -
    from that obtain row i where
      sc: "scan_column (board s) (n_columns s) column [0 ..< n_rows s] None = Inr (Some row)"
      and st: "setitem (board s) (int row * int (n_columns s) + column - 1) (Some i)
                 = Inr (board s')"
      by (auto simp: place_token_def split: sum.splits option.splits)
    from scan[OF sc] have "getitem (board s) (int row * int (n_columns s) + column - 1) = Inr None"
      by simp
    then obtain j where
      j: "norm_index (length (board s)) (int row * int (n_columns s) + column - 1) = Some j"
      and "board s ! j = None"
      by (auto simp: getitem_def split: option.splits)
    moreover from st j have "board s' = (board s)[j := Some i]"
      by (simp add: setitem_def)
    moreover from norm[OF j] have "j < length (board s)" .
    ultimately have "j < length (board s)" "board s ! j = None"
      "board s' = (board s)[j := Some i]" by simp_all
    with fewer[of j "board s" i] show ?thesis by (simp add: empty_cells_def)
  qed
  from cont obtain column tok u where
    "place_token column tok (l_state v) = (Inr u, l_state (snd (turn g v)))"
    by (auto simp: turn_def Let_def split: option.splits sum.splits prod.splits if_splits)
  from place[OF this]
  show "((g, snd (turn g v)), (g, v)) \<in> measure (\<lambda>(g, v). empty_cells (l_state v))"
    by simp
qed

declare play_loop.simps [simp del]

text \<open>
  \<^verbatim>\<open>Game.play\<close>. The second argument is the list that
  \<^verbatim>\<open>random.sample(self._agents, len(self._agents))\<close> returns, a permutation of the agents.
  The method has no \<^verbatim>\<open>return\<close> statement: when the loop ends without an exception, every
  agent is notified of the outcome, in the order of \<^verbatim>\<open>self._agents\<close>, and the call returns
  Python's \<open>None\<close>. \<open>returned\<close> is what the call raised or returned, \<open>final\<close> holds the local
  variables at that moment and \<open>notified\<close> lists the \<^verbatim>\<open>notify_outcome\<close> calls made. The loop
  never hands back \<open>Continue\<close> (\<open>play_loop_outcomes\<close>), so the last case of \<open>play\<close> is the
  \<^verbatim>\<open>break\<close>.
\<close>

record 'tok play_end =
  returned :: "error + 'tok outcome option"
  final :: "'tok play_vars"
  notified :: "('tok agent \<times> 'tok outcome) list"

definition play_start :: "'tok game \<Rightarrow> 'tok agent list \<Rightarrow> 'tok play_vars" where
  "play_start g sample =
     \<lparr> l_agents = cycle_init sample,
       l_state = State_init (map token (agents g)) (game_board_size g),
       l_outcome = Outcome_init (agents g),
       asked = [] \<rparr>"

definition play :: "'tok game \<Rightarrow> 'tok agent list \<Rightarrow> 'tok play_end" where
  "play g sample =
     (let r = play_loop g (play_start g sample)
      in case fst r of
           Raise e \<Rightarrow> \<lparr> returned = Inl e, final = snd r, notified = [] \<rparr>
         | _ \<Rightarrow> \<lparr> returned = Inr None, final = snd r,
                  notified = map (\<lambda>a. (a, l_outcome (snd r))) (agents g) \<rparr>)"

text \<open>
  The states a game can be in: the state that \<^verbatim>\<open>play\<close> constructs from the agents' tokens and
  the board size, and every state that a successful \<^verbatim>\<open>place_token\<close> leaves, for a column that
  has passed the checks of \<^verbatim>\<open>play\<close>.
\<close>

inductive reachable :: "'tok list \<Rightarrow> nat \<times> nat \<Rightarrow> 'tok state \<Rightarrow> bool"
  for external_tokens :: "'tok list" and size :: "nat \<times> nat" where
  start: "reachable external_tokens size (State_init external_tokens size)"
| placed: "reachable external_tokens size s \<Longrightarrow> 1 \<le> column \<Longrightarrow> column \<le> int (n_columns s) \<Longrightarrow>
           place_token column tok s = (Inr u, s') \<Longrightarrow> reachable external_tokens size s'"

text \<open>
  Tokens have settled in a state when, in every column, every cell below an occupied cell is
  occupied (rows are counted from the top).
\<close>

definition settled :: "'tok state \<Rightarrow> bool" where
  "settled s =
     (\<forall>c < n_columns s. \<forall>r r'. r \<le> r' \<and> r' < n_rows s \<and>
        board s ! (r * n_columns s + c) \<noteq> None \<longrightarrow> board s ! (r' * n_columns s + c) \<noteq> None)"

text \<open>
  An action is structurally valid, in the words of the specification, when its kind is PLACE and
  its column is an integer within \<open>[1, n_columns]\<close>.
\<close>

definition structurally_valid :: "nat \<Rightarrow> game_action \<Rightarrow> bool" where
  "structurally_valid ncols a =
     (action a = Member PLACE \<and>
      (case place_column a of
         PyOther \<Rightarrow> False
       | PyInt column \<Rightarrow> 1 \<le> column \<and> column \<le> int ncols))"

text \<open>
  The iterator \<^verbatim>\<open>itertools.cycle(xs)\<close> after \<open>n\<close> calls of \<^verbatim>\<open>next\<close>: what is pending of the
  current pass and what has been saved.
\<close>

definition cycle_at :: "'a list \<Rightarrow> nat \<Rightarrow> 'a cycle \<Rightarrow> bool" where
  "cycle_at xs n c =
     (pending c = drop (if n = 0 then 0 else (n - 1) mod length xs + 1) xs \<and>
      saved c = (if first_pass c then take n xs else xs) \<and>
      (first_pass c \<longrightarrow> n \<le> length xs))"



text \<open>A state for which \<^verbatim>\<open>check_for_outcome\<close> returns WIN with a token, or DRAW.\<close>

definition terminal :: "'tok state \<Rightarrow> bool" where
  "terminal s =
     (case check_for_outcome s of
        Inr (Some WIN, Some t) \<Rightarrow> True
      | Inr (Some DRAW, None) \<Rightarrow> True
      | _ \<Rightarrow> False)"

section \<open>The prototype script connect4.py\<close>

text \<open>
  The class \<^verbatim>\<open>State\<close> of the single-file script \<^verbatim>\<open>connect4.py\<close>, an earlier version of the
  state of the package. Its fields are \<^verbatim>\<open>token_map\<close>, \<^verbatim>\<open>n_rows\<close>, \<^verbatim>\<open>n_columns\<close> and
  \<^verbatim>\<open>board\<close>, named with the prefix \<open>p_\<close> here; internal ids are the lower-case letters.
\<close>

record 'tok proto_state =
  p_token_map :: "('tok, char) bidict"
  p_n_rows :: nat
  p_n_columns :: nat
  p_board :: "char option list"

definition internal_tokens :: string where
  "internal_tokens = ''abcdefghijklmnopqrstuvwxyz''"

text \<open>
  \<^verbatim>\<open>State.__init__\<close> of the script; the argument \<^verbatim>\<open>size\<close> is named \<open>dims\<close> here, and
  \<^verbatim>\<open>play\<close> calls the constructor with the default \<open>(6, 7)\<close>.
\<close>

definition State_init_proto :: "'tok list \<Rightarrow> nat \<times> nat \<Rightarrow> 'tok proto_state" where
  "State_init_proto external_tokens dims =
     \<lparr> p_token_map =
         dict_comp (zip external_tokens (take (length external_tokens) internal_tokens)),
       p_n_rows = fst dims,
       p_n_columns = snd dims,
       p_board = replicate (fst dims * snd dims) None \<rparr>"

text \<open>\<^verbatim>\<open>_generate_lines\<close> of the script: the same four loops and slices as in the package.\<close>

definition generate_lines_proto :: "'tok proto_state \<Rightarrow> char option list list" where
  "generate_lines_proto s =
     map (\<lambda>(start, stop, step). slice (p_board s) start stop step)
       (line_slices (p_n_rows s) (p_n_columns s))"

text \<open>
  The \<^verbatim>\<open>for\<close> loop of \<^verbatim>\<open>check_for_end\<close>: at the first line with
  \<^verbatim>\<open>line[0] is not None and len(set(line)) == 1\<close> the outcome is the dict that gives
  \<^verbatim>\<open>'Win'\<close> to the token whose id the line holds and \<^verbatim>\<open>'Loss'\<close> to every other token.
\<close>

fun scan_lines_proto :: "('tok, char) bidict \<Rightarrow> char option list list \<Rightarrow>
                         error + ('tok \<times> string) list option" where
  "scan_lines_proto m [] = Inr None"
| "scan_lines_proto m ([] # lines) = Inl IndexError"
| "scan_lines_proto m ((None # cells) # lines) = scan_lines_proto m lines"
| "scan_lines_proto m ((Some i # cells) # lines) =
     (if length (remdups (Some i # cells)) = 1
      then Inr (Some (map (\<lambda>(tok, v). (tok, if i = v then ''Win'' else ''Loss'')) m))
      else scan_lines_proto m lines)"

text \<open>
  \<^verbatim>\<open>State.check_for_end\<close>. The test \<^verbatim>\<open>None not in self.board\<close> comes first: the lines are
  scanned only in the \<^verbatim>\<open>else\<close> branch, on a board that still has an empty cell. The result is
  \<open>None\<close> or the dict of results, as the list of its items.
\<close>

definition check_for_end :: "'tok proto_state \<Rightarrow> error + ('tok \<times> string) list option" where
  "check_for_end s =
     (if None \<notin> set (p_board s)
      then Inr (Some (map (\<lambda>(tok, v). (tok, ''Draw'')) (p_token_map s)))
      else scan_lines_proto (p_token_map s) (generate_lines_proto s))"

text \<open>
  The loop of \<^verbatim>\<open>_place_token\<close>: from the top row down, an empty cell is remembered and the
  first occupied cell ends the loop.
\<close>

fun scan_column_proto :: "char option list \<Rightarrow> nat \<Rightarrow> int \<Rightarrow> nat list \<Rightarrow> nat option \<Rightarrow>
                          error + nat option" where
  "scan_column_proto b ncols column [] lowest = Inr lowest"
| "scan_column_proto b ncols column (row # rows) lowest =
     (case getitem b (int row * int ncols + column - 1) of
        Inl e \<Rightarrow> Inl e
      | Inr cell \<Rightarrow>
          if cell = None then scan_column_proto b ncols column rows (Some row)
          else Inr lowest)"

text \<open>\<^verbatim>\<open>State._place_token\<close>: it returns whether a token was placed.\<close>

definition place_token_proto :: "int \<Rightarrow> 'tok \<Rightarrow> 'tok proto_state \<Rightarrow>
                                 (error + bool) \<times> 'tok proto_state" where
  "place_token_proto column tok s =
     (case scan_column_proto (p_board s) (p_n_columns s) column [0 ..< p_n_rows s] None of
        Inl e \<Rightarrow> (Inl e, s)
      | Inr (Some lowest_open_cell_in_column) \<Rightarrow>
          (case forward (p_token_map s) tok of
             None \<Rightarrow> (Inl KeyError, s)
           | Some i \<Rightarrow>
               (case setitem (p_board s)
                       (int lowest_open_cell_in_column * int (p_n_columns s) + column - 1)
                       (Some i) of
                  Inl e \<Rightarrow> (Inl e, s)
                | Inr b \<Rightarrow> (Inr True, s\<lparr>p_board := b\<rparr>)))
      | Inr None \<Rightarrow> (Inr False, s))"

text \<open>The loop of \<^verbatim>\<open>_remove_token\<close>: the first occupied cell from the top ends it.\<close>

fun scan_filled_proto :: "char option list \<Rightarrow> nat \<Rightarrow> int \<Rightarrow> nat list \<Rightarrow> error + nat option" where
  "scan_filled_proto b ncols column [] = Inr None"
| "scan_filled_proto b ncols column (row # rows) =
     (case getitem b (int row * int ncols + column - 1) of
        Inl e \<Rightarrow> Inl e
      | Inr cell \<Rightarrow>
          if cell \<noteq> None then Inr (Some row)
          else scan_filled_proto b ncols column rows)"

definition remove_token_proto :: "int \<Rightarrow> 'tok proto_state \<Rightarrow> (error + bool) \<times> 'tok proto_state" where
  "remove_token_proto column s =
     (case scan_filled_proto (p_board s) (p_n_columns s) column [0 ..< p_n_rows s] of
        Inl e \<Rightarrow> (Inl e, s)
      | Inr (Some highest_filled_cell_in_column) \<Rightarrow>
          (case setitem (p_board s)
                  (int highest_filled_cell_in_column * int (p_n_columns s) + column - 1) None of
             Inl e \<Rightarrow> (Inl e, s)
           | Inr b \<Rightarrow> (Inr True, s\<lparr>p_board := b\<rparr>))
      | Inr None \<Rightarrow> (Inr False, s))"

text \<open>
  An action of the script is a dict with the keys \<^verbatim>\<open>'action'\<close>, \<^verbatim>\<open>'column'\<close> and
  \<^verbatim>\<open>'token'\<close>; the enum \<^verbatim>\<open>Actions\<close> of the script has the members PLACE and REMOVE, and the
  value under \<^verbatim>\<open>'action'\<close> may be something else.
\<close>

datatype proto_kind = PLACE_proto | REMOVE_proto | OTHER_proto

record 'tok proto_action =
  p_action :: proto_kind
  p_column :: int
  p_token :: 'tok

definition execute_action :: "'tok proto_action \<Rightarrow> 'tok proto_state \<Rightarrow>
                              (error + bool) \<times> 'tok proto_state" where
  "execute_action a s =
     (case p_action a of
        PLACE_proto \<Rightarrow> place_token_proto (p_column a) (p_token a) s
      | REMOVE_proto \<Rightarrow> remove_token_proto (p_column a) s
      | OTHER_proto \<Rightarrow> (Inr False, s))"

text \<open>
  The \<^verbatim>\<open>while True\<close> loop of the script's \<^verbatim>\<open>play\<close>, for agents whose successive answers are
  the given actions: the action is executed (a failed action is passed over), then
  \<^verbatim>\<open>check_for_end\<close> is called, and the loop breaks when the outcome is truthy, that is a
  non-empty dict. The result is \<open>None\<close> while the loop is still running after the last answer.
\<close>

fun play_answers_proto :: "'tok proto_state \<Rightarrow> 'tok proto_action list \<Rightarrow>
                           (error + ('tok \<times> string) list option) \<times> 'tok proto_state" where
  "play_answers_proto s [] = (Inr None, s)"
| "play_answers_proto s (a # answers) =
     (case execute_action a s of
        (Inl e, s') \<Rightarrow> (Inl e, s')
      | (Inr is_successful, s') \<Rightarrow>
          (case check_for_end s' of
             Inl e \<Rightarrow> (Inl e, s')
           | Inr None \<Rightarrow> play_answers_proto s' answers
           | Inr (Some outcome) \<Rightarrow>
               if outcome = [] then play_answers_proto s' answers
               else (Inr (Some outcome), s')))"

section \<open>Concrete states and games\<close>

definition full_example :: "string state" where
  "full_example = \<lparr> token_map = [(''X'', 0), (''O'', 1)], n_rows = 2, n_columns = 2,
                    board = [Some 0, None, Some 1, None] \<rparr>"


text \<open>A 4 x 4 board on which X owns the first column.\<close>

definition won_example :: "string state" where
  "won_example = \<lparr> token_map = [(''X'', 0), (''O'', 1)], n_rows = 4, n_columns = 4,
                   board = [Some 0, None,   None,   None,
                            Some 0, None,   None,   None,
                            Some 0, Some 1, None,   None,
                            Some 0, Some 1, Some 1, None] \<rparr>"

text \<open>An agent that always asks for the same column, and one that takes the first open column.\<close>

definition always :: "'tok \<Rightarrow> int \<Rightarrow> 'tok agent" where
  "always tok column =
     \<lparr> token = tok,
       select_action = (\<lambda>n view. \<lparr> action = Member PLACE, place_column = PyInt column \<rparr>) \<rparr>"

definition first_open :: "'tok state_view \<Rightarrow> int" where
  "first_open view =
     (case find (\<lambda>c. view_board view ! c = None) [0 ..< snd (board_size view)] of
        None \<Rightarrow> 1
      | Some c \<Rightarrow> int c + 1)"

definition filler :: "'tok \<Rightarrow> 'tok agent" where
  "filler tok =
     \<lparr> token = tok,
       select_action = (\<lambda>n view. \<lparr> action = Member PLACE, place_column = PyInt (first_open view) \<rparr>) \<rparr>"

text \<open>The scenario of the specification: X plays column 4, O plays column 1, on 6 x 7.\<close>

definition scenario_game :: "string game" where
  "scenario_game = \<lparr> agents = [always ''X'' 4, always ''O'' 1], game_board_size = (6, 7) \<rparr>"

definition small_game :: "string game" where
  "small_game = \<lparr> agents = [filler ''X'', filler ''O''], game_board_size = (2, 2) \<rparr>"

text \<open>A 3 x 2 board after X has played column 1.\<close>

definition placed_once :: "string state" where
  "placed_once = snd (place_token 1 ''X'' (State_init [''X'', ''O''] (3, 2)))"

text \<open>A game in which the first agent asks for column 0, and the start of its play.\<close>

definition bad_game :: "string game" where
  "bad_game = \<lparr> agents = [always ''X'' 0, always ''O'' 1], game_board_size = (2, 2) \<rparr>"

definition bad_start :: "string play_vars" where
  "bad_start = play_start bad_game (agents bad_game)"

text \<open>
  A game of 42 placements on the 6 x 7 board, X and O in turn, by columns. No line of four exists
  before the last placement; the last one, by O, fills the board and completes a line of four in
  the top row.
\<close>

definition last_cell_columns :: "int list" where
  "last_cell_columns =
     [5, 2, 7, 3, 2, 1, 2, 5, 5, 3, 5, 2, 4, 7, 4, 4, 2, 1, 5, 7, 7,
      2, 3, 4, 3, 4, 3, 3, 7, 6, 6, 1, 6, 5, 7, 6, 6, 6, 1, 1, 1, 4]"

definition last_cell_answers :: "string proto_action list" where
  "last_cell_answers =
     map (\<lambda>(n, column). \<lparr> p_action = PLACE_proto, p_column = column,
                             p_token = (if even n then ''X'' else ''O'') \<rparr>)
       (zip [0 ..< length last_cell_columns] last_cell_columns)"

text \<open>The same placements made through \<^verbatim>\<open>place_token\<close> of the package.\<close>

definition last_cell_state :: "string state" where
  "last_cell_state =
     foldl (\<lambda>s (n, column). snd (place_token column (if even n then ''X'' else ''O'') s))
       (State_init [''X'', ''O''] (6, 7))
       (zip [0 ..< length last_cell_columns] last_cell_columns)"

text \<open>
  The board at the end of that game in the prototype, row by row from the top (\<open>a\<close> is the id
  of X, \<open>b\<close> the id of O), and the prototype's state holding it.
\<close>

definition last_cell_board :: "char option list" where
  "last_cell_board =
     map Some (''abbbbba'' @ ''baabaaa'' @ ''abababa'' @ ''baabaab'' @ ''bababab'' @ ''bbbaaba'')"

definition last_cell_proto :: "string proto_state" where
  "last_cell_proto = (State_init_proto [''X'', ''O''] (6, 7))\<lparr>p_board := last_cell_board\<rparr>"

section \<open>Indexing the board\<close>

lemma getitem_in_range:
  "0 \<le> i \<Longrightarrow> i < int (length xs) \<Longrightarrow> getitem xs i = Inr (xs ! nat i)"
  by (simp add: getitem_def norm_index_def)

lemma setitem_in_range:
  "0 \<le> i \<Longrightarrow> i < int (length xs) \<Longrightarrow> setitem xs i v = Inr (xs[nat i := v])"
  by (simp add: setitem_def norm_index_def)

lemma cell_index_bounds:
  assumes "row < nrows" "1 \<le> column" "column \<le> int ncols"
  shows "0 \<le> int row * int ncols + column - 1"
    and "int row * int ncols + column - 1 < int (nrows * ncols)"
    and "nat (int row * int ncols + column - 1) = row * ncols + nat (column - 1)"
proof -
  have nonneg: "0 \<le> int row * int ncols" by simp
  show "0 \<le> int row * int ncols + column - 1" using nonneg assms(2) by linarith
  have "row * ncols + ncols \<le> nrows * ncols"
    using assms(1) by (metis Suc_leI mult_Suc mult_le_mono1 add.commute)
  then have "int row * int ncols + int ncols \<le> int (nrows * ncols)"
    by (metis of_nat_add of_nat_mult of_nat_le_iff)
  then show "int row * int ncols + column - 1 < int (nrows * ncols)"
    using assms by linarith
  have "int row * int ncols + column - 1 = int (row * ncols + nat (column - 1))"
    using assms(2) by simp
  then show "nat (int row * int ncols + column - 1) = row * ncols + nat (column - 1)"
    by (simp only: nat_int)
qed

text \<open>
  Claim C4. When the target column (a column index within \<open>[1, n_columns]\<close>) has no empty
  cell, \<^verbatim>\<open>place_token\<close> raises \<open>ActionError\<close> and the state it leaves behind is the state
  it was called on: no cell of the board has changed.
\<close>

theorem place_token_full_column:
  assumes len: "length (board s) = n_rows s * n_columns s"
    and col: "1 \<le> column" "column \<le> int (n_columns s)"
    and full: "\<forall>row < n_rows s. board s ! (row * n_columns s + nat (column - 1)) \<noteq> None"
  shows "place_token column tok s = (Inl ActionError, s)"
proof (cases "n_rows s")
  case 0
  then show ?thesis by (simp add: place_token_def)
next
  case (Suc m)
  then have rows: "[0 ..< n_rows s] = 0 # [1 ..< n_rows s]"
    by (simp add: upt_conv_Cons)
  have pos: "0 < n_rows s" using Suc by simp
  from cell_index_bounds[OF pos col] len
  have "getitem (board s) (int 0 * int (n_columns s) + column - 1)
          = Inr (board s ! (0 * n_columns s + nat (column - 1)))"
    by (simp add: getitem_in_range)
  moreover have "board s ! (0 * n_columns s + nat (column - 1)) \<noteq> None"
    using full pos by blast
  ultimately have "scan_column (board s) (n_columns s) column [0 ..< n_rows s] None = Inr None"
    unfolding rows by simp
  then show ?thesis by (simp add: place_token_def)
qed

theorem place_token_full_column_witness:
  "place_token 1 ''O'' full_example = (Inl ActionError, full_example)"
proof -
  have "\<forall>row < n_rows full_example.
          board full_example ! (row * n_columns full_example + nat (1 - 1)) \<noteq> None"
    by (simp add: full_example_def less_Suc_eq numeral_2_eq_2)
  then show ?thesis
    using place_token_full_column [of full_example 1 "''O''"]
    by (simp add: full_example_def)
qed

section \<open>The generated lines and the outcome check\<close>

lemma slice_indices_four:
  assumes "0 < step" "stop = start + 4 * step" "start + 3 * step < len"
  shows "slice_indices len start stop step
           = [start, start + step, start + 2 * step, start + 3 * step]"
proof -
  define m where "m = min stop len"
  have lo: "start + 3 * step < m" and hi: "m \<le> start + 4 * step"
    using assms by (simp_all add: m_def)
  have "(m - start + step - 1) div step = 4"
  proof (rule div_nat_eqI)
    show "step * 4 \<le> m - start + step - 1" using lo hi assms(1) by linarith
    show "m - start + step - 1 < step * Suc 4" using lo hi assms(1) by simp
  qed
  then show ?thesis
    by (simp add: slice_indices_def m_def [symmetric] upt_rec numeral_eq_Suc)
qed

lemma rows_below:
  fixes r :: nat
  assumes "r + k \<le> nrows"
  shows "r * ncols + k * ncols \<le> nrows * ncols"
proof -
  have "(r + k) * ncols \<le> nrows * ncols" using assms by (rule mult_le_mono1)
  then show ?thesis by (simp add: add_mult_distrib)
qed

lemma in_nested_loops:
  "t \<in> set (concat (map (\<lambda>r. map (f r) cs) rs)) \<longleftrightarrow> (\<exists>r \<in> set rs. \<exists>c \<in> set cs. t = f r c)"
  by auto

lemma line_slices_mem:
  "t \<in> set (line_slices nrows ncols) \<longleftrightarrow>
     (\<exists>r c. r < nrows \<and> c < ncols - 3 \<and> t = (r * ncols + c, r * ncols + c + 4, 1)) \<or>
     (\<exists>r c. r < nrows - 3 \<and> c < ncols \<and> t = (r * ncols + c, (r + 4) * ncols + c, ncols)) \<or>
     (\<exists>r c. r < nrows - 3 \<and> c < ncols - 3 \<and>
            t = (r * ncols + c, (r + 4) * ncols + c + 4, ncols + 1)) \<or>
     (\<exists>r c. r < nrows - 3 \<and> 3 \<le> c \<and> c < ncols \<and>
            t = (r * ncols + c, (r + 4) * ncols + c - 4, ncols - 1))"
  unfolding line_slices_def set_append Un_iff in_nested_loops Bex_def set_upt atLeastLessThan_iff
  by simp

lemma line_slices_shape:
  assumes "(start, stop, step) \<in> set (line_slices nrows ncols)"
  shows "0 < step \<and> stop = start + 4 * step \<and> start + 3 * step < nrows * ncols"
proof -
  from assms consider
      (h) r c where "r < nrows" "c < ncols - 3"
        "start = r * ncols + c" "stop = r * ncols + c + 4" "step = 1"
    | (v) r c where "r < nrows - 3" "c < ncols"
        "start = r * ncols + c" "stop = (r + 4) * ncols + c" "step = ncols"
    | (d) r c where "r < nrows - 3" "c < ncols - 3"
        "start = r * ncols + c" "stop = (r + 4) * ncols + c + 4" "step = ncols + 1"
    | (a) r c where "r < nrows - 3" "3 \<le> c" "c < ncols"
        "start = r * ncols + c" "stop = (r + 4) * ncols + c - 4" "step = ncols - 1"
    unfolding line_slices_mem by auto
  then show ?thesis
  proof cases
    case h
    have "r * ncols + 1 * ncols \<le> nrows * ncols" using h(1) by (intro rows_below) simp
    with h show ?thesis by simp
  next
    case v
    have "r * ncols + 4 * ncols \<le> nrows * ncols" using v(1) by (intro rows_below) simp
    with v show ?thesis by (simp add: add_mult_distrib)
  next
    case d
    have "r * ncols + 4 * ncols \<le> nrows * ncols" using d(1) by (intro rows_below) simp
    with d show ?thesis by (simp add: add_mult_distrib)
  next
    case a
    have "r * ncols + 4 * ncols \<le> nrows * ncols" using a(1) by (intro rows_below) simp
    moreover have "(r + 4) * ncols = r * ncols + 4 * ncols" by (simp add: add_mult_distrib)
    moreover have "4 * (ncols - 1) = 4 * ncols - 4" "3 * (ncols - 1) = 3 * ncols - 3" by simp_all
    ultimately show ?thesis unfolding a(4,5,6) using a(2,3) by (simp only:) arith
  qed
qed

lemma line_slices_step_positive:
  "(start, stop, step) \<in> set (line_slices nrows ncols) \<Longrightarrow> 0 < step"
  using line_slices_shape by blast

lemma generate_lines_shape:
  assumes len: "length (board s) = n_rows s * n_columns s"
    and line: "line \<in> set (generate_lines s)"
  shows "\<exists>start step. 0 < step \<and> start + 3 * step < length (board s) \<and>
           line = [board s ! start, board s ! (start + step),
                   board s ! (start + 2 * step), board s ! (start + 3 * step)]"
proof -
  from line obtain start stop step
    where mem: "(start, stop, step) \<in> set (line_slices (n_rows s) (n_columns s))"
      and eq: "line = slice (board s) start stop step"
    by (auto simp: generate_lines_def)
  from line_slices_shape[OF mem]
  have shape: "0 < step" "stop = start + 4 * step" "start + 3 * step < n_rows s * n_columns s"
    by simp_all
  from slice_indices_four[OF shape(1,2), of "length (board s)"] shape(3) len
  have "line = [board s ! start, board s ! (start + step),
                board s ! (start + 2 * step), board s ! (start + 3 * step)]"
    by (simp add: eq slice_def)
  with shape(1,3) len show ?thesis by auto
qed

lemma generate_lines_length:
  "length (board s) = n_rows s * n_columns s \<Longrightarrow> line \<in> set (generate_lines s)
     \<Longrightarrow> length line = 4"
  using generate_lines_shape by fastforce

lemma winning_line_four:
  assumes "length line = 4"
  shows "winning_line line = four_identical line"
proof -
  from assms obtain a b c d where l: "line = [a, b, c, d]"
    by (auto simp: length_Suc_conv numeral_eq_Suc)
  show ?thesis
    unfolding l winning_line_def four_identical_def by (auto split: if_splits)
qed

lemma scan_lines_first:
  assumes "\<forall>line \<in> set lines. line \<noteq> []"
  shows "scan_lines m lines =
           (case find winning_line lines of
              None \<Rightarrow> Inr (None, None)
            | Some line \<Rightarrow> (case inverse_of m (the (hd line)) of
                             None \<Rightarrow> Inl KeyError
                           | Some t \<Rightarrow> Inr (Some WIN, Some t)))"
  using assms
proof (induction m lines rule: scan_lines.induct)
  case (1 m)
  show ?case by simp
next
  case (2 m lines)
  then show ?case by simp
next
  case (3 m cells lines)
  then show ?case by (simp add: winning_line_def)
next
  case (4 m i cells lines)
  then show ?case by (simp add: winning_line_def)
qed

lemma four_identical_cases:
  "four_identical line \<longleftrightarrow> (\<exists>i. line = [Some i, Some i, Some i, Some i])"
  by (auto simp: four_identical_def split: list.splits)

lemma generate_lines_cells:
  assumes "length (board s) = n_rows s * n_columns s" "line \<in> set (generate_lines s)"
  shows "set line \<subseteq> set (board s)"
proof -
  from generate_lines_shape[OF assms] obtain start step
    where "0 < step" "start + 3 * step < length (board s)"
      and "line = [board s ! start, board s ! (start + step),
                   board s ! (start + 2 * step), board s ! (start + 3 * step)]"
    by blast
  then show ?thesis by auto
qed

lemma check_for_outcome_first:
  assumes ok: "board_ok s"
  shows "case find four_identical (generate_lines s) of
           None \<Rightarrow>
             check_for_outcome s = Inr (if None \<notin> set (board s) then Some DRAW else None, None)
         | Some line \<Rightarrow>
             (\<exists>i t. line = [Some i, Some i, Some i, Some i] \<and>
                    inverse_of (token_map s) i = Some t \<and>
                    check_for_outcome s = Inr (Some WIN, Some t))"
proof -
  let ?lines = "generate_lines s"
  from ok have len: "length (board s) = n_rows s * n_columns s"
    and known: "\<forall>cell \<in> set (board s). known_cell (token_map s) cell"
    by (simp_all add: board_ok_def list_all_iff)
  have four: "\<forall>line \<in> set ?lines. length line = 4"
    using generate_lines_length[OF len] by blast
  then have nonempty: "\<forall>line \<in> set ?lines. line \<noteq> []" by auto
  have same: "find winning_line ?lines = find four_identical ?lines"
    using four by (intro find_cong) (simp_all add: winning_line_four)
  note scan = scan_lines_first[OF nonempty, of "token_map s", unfolded same]
  show ?thesis
  proof (cases "find four_identical ?lines")
    case None
    then show ?thesis by (simp add: check_for_outcome_def scan)
  next
    case (Some line)
    then have mem: "line \<in> set ?lines" and win: "four_identical line"
      by (auto simp: find_Some_iff)
    from win obtain i where line: "line = [Some i, Some i, Some i, Some i]"
      by (auto simp: four_identical_cases)
    have "Some i \<in> set (board s)"
      using generate_lines_cells[OF len mem] line by auto
    with known have "inverse_of (token_map s) i \<noteq> None"
      by (force simp: known_cell_def)
    then obtain t where t: "inverse_of (token_map s) i = Some t" by blast
    have "check_for_outcome s = Inr (Some WIN, Some t)"
      by (simp add: check_for_outcome_def scan Some line t)
    with Some line t show ?thesis by simp
  qed
qed

text \<open>
  The outcome check of the package has the property that claim C1 states. On every board of
  \<open>n_rows * n_columns\<close> cells whose occupied cells hold ids of the token map,
  \<^verbatim>\<open>check_for_outcome\<close> returns WIN exactly when some generated line has four
  identical non-empty cells, and the token it returns with WIN is the owner of the first such line
  in generation order; it returns DRAW exactly when the board has no empty cell and no generated
  line is winning; it returns the unfinished result \<open>(None, None)\<close> exactly when the board has an
  empty cell and no generated line is winning. It never raises on such a board.
\<close>

theorem check_for_outcome_correct:
  assumes ok: "board_ok s"
  shows "((\<exists>t. check_for_outcome s = Inr (Some WIN, Some t)) \<longleftrightarrow>
            (\<exists>line \<in> set (generate_lines s). four_identical line)) \<and>
         (\<forall>t. check_for_outcome s = Inr (Some WIN, Some t) \<longleftrightarrow>
            (\<exists>line i. find four_identical (generate_lines s) = Some line \<and>
                      line = [Some i, Some i, Some i, Some i] \<and>
                      inverse_of (token_map s) i = Some t)) \<and>
         (check_for_outcome s = Inr (Some DRAW, None) \<longleftrightarrow>
            None \<notin> set (board s) \<and> \<not> (\<exists>line \<in> set (generate_lines s). four_identical line)) \<and>
         (check_for_outcome s = Inr (None, None) \<longleftrightarrow>
            None \<in> set (board s) \<and> \<not> (\<exists>line \<in> set (generate_lines s). four_identical line)) \<and>
         (\<exists>r. check_for_outcome s = Inr r)"
proof (cases "find four_identical (generate_lines s)")
  case None
  then have no: "\<not> (\<exists>line \<in> set (generate_lines s). four_identical line)"
    by (simp add: find_None_iff)
  from check_for_outcome_first[OF ok] None
  have "check_for_outcome s = Inr (if None \<notin> set (board s) then Some DRAW else None, None)"
    by simp
  with None no show ?thesis by auto
next
  case (Some line)
  then have mem: "line \<in> set (generate_lines s)" and win: "four_identical line"
    by (auto simp: find_Some_iff)
  from check_for_outcome_first[OF ok] Some obtain i t where
    "line = [Some i, Some i, Some i, Some i]" "inverse_of (token_map s) i = Some t"
    "check_for_outcome s = Inr (Some WIN, Some t)"
    by auto
  with Some mem win show ?thesis by auto
qed

theorem check_for_outcome_correct_witness:
  "board_ok won_example \<and> check_for_outcome won_example = Inr (Some WIN, Some ''X'') \<and>
   (\<exists>line \<in> set (generate_lines won_example). four_identical line)"
proof -
  have ok: "board_ok won_example" by code_simp
  have win: "check_for_outcome won_example = Inr (Some WIN, Some ''X'')" by code_simp
  from check_for_outcome_correct[OF ok] win ok show ?thesis by blast
qed

section \<open>The outcome check of the prototype\<close>

text \<open>
  Claim C1. The claim holds of \<^verbatim>\<open>check_for_outcome\<close> of the package
  (\<open>check_for_outcome_correct\<close>); it fails of \<^verbatim>\<open>check_for_end\<close> of the script
  \<^verbatim>\<open>connect4.py\<close>, which tests for a full board before it looks at the lines. In the game of
  42 placements no outcome is reported before the last placement, so the script's loop reaches it;
  the last placement, by O, fills the board and completes four O in the top row. On that board
  \<^verbatim>\<open>check_for_end\<close> reports \<^verbatim>\<open>'Draw'\<close> for both tokens although a generated line holds four
  times the id of O; on the same board the package reports WIN for O.
\<close>

theorem check_for_end_draw_on_won_board:
  "fst (play_answers_proto (State_init_proto [''X'', ''O''] (6, 7)) (butlast last_cell_answers))
     = Inr None \<and>
   play_answers_proto (State_init_proto [''X'', ''O''] (6, 7)) last_cell_answers
     = (Inr (Some [(''X'', ''Draw''), (''O'', ''Draw'')]), last_cell_proto) \<and>
   check_for_end last_cell_proto = Inr (Some [(''X'', ''Draw''), (''O'', ''Draw'')]) \<and>
   find four_identical (generate_lines_proto last_cell_proto)
     = Some [Some CHR ''b'', Some CHR ''b'', Some CHR ''b'', Some CHR ''b''] \<and>
   forward (p_token_map last_cell_proto) ''O'' = Some CHR ''b'' \<and>
   check_for_outcome last_cell_state = Inr (Some WIN, Some ''O'')"
proof -
  have "fst (play_answers_proto (State_init_proto [''X'', ''O''] (6, 7))
               (butlast last_cell_answers)) = Inr None"
    by code_simp
  moreover have "play_answers_proto (State_init_proto [''X'', ''O''] (6, 7)) last_cell_answers
     = (Inr (Some [(''X'', ''Draw''), (''O'', ''Draw'')]), last_cell_proto)"
    by code_simp
  moreover have "check_for_end last_cell_proto = Inr (Some [(''X'', ''Draw''), (''O'', ''Draw'')])"
    by code_simp
  moreover have "find four_identical (generate_lines_proto last_cell_proto)
     = Some [Some CHR ''b'', Some CHR ''b'', Some CHR ''b'', Some CHR ''b'']"
    by code_simp
  moreover have "forward (p_token_map last_cell_proto) ''O'' = Some CHR ''b''"
    by code_simp
  moreover have "check_for_outcome last_cell_state = Inr (Some WIN, Some ''O'')"
    by code_simp
  ultimately show ?thesis by (intro conjI)
qed

section \<open>The line generator yields each run of four cells once\<close>

lemma line_indices_quads:
  "line_indices nrows ncols = map (\<lambda>(start, stop, step). quad start step) (line_slices nrows ncols)"
  unfolding line_indices_def
proof (rule map_cong[OF refl])
  fix t assume t: "t \<in> set (line_slices nrows ncols)"
  obtain start stop step where [simp]: "t = (start, stop, step)" by (cases t)
  from line_slices_shape[of start stop step nrows ncols] t
  show "(case t of (start, stop, step) \<Rightarrow> slice_indices (nrows * ncols) start stop step)
          = (case t of (start, stop, step) \<Rightarrow> quad start step)"
    by (simp add: slice_indices_four quad_def)
qed

lemma set_nested_loops:
  "set (concat (map (\<lambda>r. map (f r) cs) rs)) = (\<lambda>(r, c). f r c) ` (set rs \<times> set cs)"
  by auto

lemma set_line_slices:
  "set (line_slices nrows ncols) =
     (\<lambda>(r, c). (r * ncols + c, r * ncols + c + 4, 1)) ` ({0 ..< nrows} \<times> {0 ..< ncols - 3}) \<union>
     (\<lambda>(r, c). (r * ncols + c, (r + 4) * ncols + c, ncols)) ` ({0 ..< nrows - 3} \<times> {0 ..< ncols}) \<union>
     (\<lambda>(r, c). (r * ncols + c, (r + 4) * ncols + c + 4, ncols + 1))
        ` ({0 ..< nrows - 3} \<times> {0 ..< ncols - 3}) \<union>
     (\<lambda>(r, c). (r * ncols + c, (r + 4) * ncols + c - 4, ncols - 1))
        ` ({0 ..< nrows - 3} \<times> {3 ..< ncols})"
  unfolding line_slices_def set_append set_nested_loops set_upt
  by (simp only: Un_assoc)

lemma set_line_indices:
  "set (line_indices nrows ncols) =
     (\<lambda>(r, c). quad (r * ncols + c) 1) ` ({0 ..< nrows} \<times> {0 ..< ncols - 3}) \<union>
     (\<lambda>(r, c). quad (r * ncols + c) ncols) ` ({0 ..< nrows - 3} \<times> {0 ..< ncols}) \<union>
     (\<lambda>(r, c). quad (r * ncols + c) (ncols + 1)) ` ({0 ..< nrows - 3} \<times> {0 ..< ncols - 3}) \<union>
     (\<lambda>(r, c). quad (r * ncols + c) (ncols - 1)) ` ({0 ..< nrows - 3} \<times> {3 ..< ncols})"
  unfolding line_indices_quads set_map set_line_slices
  by (simp add: image_Un image_image case_prod_unfold)

lemma cell_index_inj:
  fixes r :: nat
  assumes "c < ncols" "c' < ncols" "r * ncols + c = r' * ncols + c'"
  shows "r = r' \<and> c = c'"
proof -
  have "(r * ncols + c) div ncols = r" "(r' * ncols + c') div ncols = r'"
    using assms(1,2) by simp_all
  with assms(3) have "r = r'" by simp
  with assms(3) show ?thesis by simp
qed

lemma distinct_nested_loops:
  assumes "distinct rs" "distinct cs"
    and "\<And>r r' c c'. r \<in> set rs \<Longrightarrow> r' \<in> set rs \<Longrightarrow> c \<in> set cs \<Longrightarrow> c' \<in> set cs \<Longrightarrow>
            f r c = f r' c' \<Longrightarrow> r = r' \<and> c = c'"
  shows "distinct (concat (map (\<lambda>r. map (f r) cs) rs))"
  using assms
proof (induction rs)
  case Nil
  then show ?case by simp
next
  case (Cons r rs)
  have inner: "distinct (map (f r) cs)"
    using Cons.prems(2,3) by (auto simp: distinct_map inj_on_def)
  have rest: "distinct (concat (map (\<lambda>r. map (f r) cs) rs))"
    using Cons.prems by (intro Cons.IH) auto
  have apart: "set (map (f r) cs) \<inter> set (concat (map (\<lambda>r. map (f r) cs) rs)) = {}"
  proof (rule ccontr)
    assume "\<not> ?thesis"
    then obtain c r' c' where "c \<in> set cs" "r' \<in> set rs" "c' \<in> set cs" "f r c = f r' c'"
      by auto
    with Cons.prems(3)[of r r' c c'] have "r = r'" by simp
    with \<open>r' \<in> set rs\<close> Cons.prems(1) show False by simp
  qed
  from inner rest apart show ?case by simp
qed

lemma run_from_cells:
  "run_from (r, c) (dr, dc) =
     [(r, c), (r + dr, c + dc), (r + 2 * dr, c + 2 * dc), (r + 3 * dr, c + 3 * dc)]"
  by (simp add: run_from_def upt_rec numeral_eq_Suc)

lemma flat_index_nonneg:
  "0 \<le> r \<Longrightarrow> 0 \<le> c \<Longrightarrow> flat_index ncols (r, c) = nat r * ncols + nat c"
  by (simp add: flat_index_def nat_add_distrib nat_mult_distrib)

lemma flat_run_right:
  "map (flat_index ncols) (run_from (int r, int c) (0, 1)) = quad (r * ncols + c) 1"
  by (simp add: run_from_cells quad_def flat_index_nonneg nat_add_distrib)

lemma flat_run_down:
  "map (flat_index ncols) (run_from (int r, int c) (1, 0)) = quad (r * ncols + c) ncols"
  by (simp add: run_from_cells quad_def flat_index_nonneg nat_add_distrib algebra_simps)

lemma flat_run_down_right:
  "map (flat_index ncols) (run_from (int r, int c) (1, 1)) = quad (r * ncols + c) (ncols + 1)"
  by (simp add: run_from_cells quad_def flat_index_nonneg nat_add_distrib algebra_simps)

lemma flat_run_down_left:
  assumes "3 \<le> c" "c < ncols"
  shows "map (flat_index ncols) (run_from (int r, int c) (1, -1)) = quad (r * ncols + c) (ncols - 1)"
  using assms
  by (simp add: run_from_cells quad_def flat_index_nonneg nat_add_distrib nat_diff_distrib
      algebra_simps)

lemma runs_intro:
  "d \<in> set directions \<Longrightarrow> list_all (on_board nrows ncols) (run_from p d)
     \<Longrightarrow> run_from p d \<in> runs nrows ncols"
  unfolding runs_def by blast

lemma line_is_run:
  assumes "line \<in> set (line_indices nrows ncols)"
  shows "\<exists>run \<in> runs nrows ncols. line = map (flat_index ncols) run"
proof -
  from assms consider
      (h) r c where "r < nrows" "c < ncols - 3" "line = quad (r * ncols + c) 1"
    | (v) r c where "r < nrows - 3" "c < ncols" "line = quad (r * ncols + c) ncols"
    | (d) r c where "r < nrows - 3" "c < ncols - 3" "line = quad (r * ncols + c) (ncols + 1)"
    | (a) r c where "r < nrows - 3" "3 \<le> c" "c < ncols"
        "line = quad (r * ncols + c) (ncols - 1)"
    unfolding set_line_indices by auto
  then show ?thesis
  proof cases
    case h
    have "run_from (int r, int c) (0, 1) \<in> runs nrows ncols"
      using h(1,2) by (intro runs_intro) (auto simp: directions_def run_from_cells on_board_def)
    with h(3) flat_run_right show ?thesis by metis
  next
    case v
    have "run_from (int r, int c) (1, 0) \<in> runs nrows ncols"
      using v(1,2) by (intro runs_intro) (auto simp: directions_def run_from_cells on_board_def)
    with v(3) flat_run_down show ?thesis by metis
  next
    case d
    have "run_from (int r, int c) (1, 1) \<in> runs nrows ncols"
      using d(1,2) by (intro runs_intro) (auto simp: directions_def run_from_cells on_board_def)
    with d(3) flat_run_down_right show ?thesis by metis
  next
    case a
    have "run_from (int r, int c) (1, -1) \<in> runs nrows ncols"
      using a(1,2,3) by (intro runs_intro) (auto simp: directions_def run_from_cells on_board_def)
    with a(4) flat_run_down_left[OF a(2,3)] show ?thesis by metis
  qed
qed

lemma run_is_line:
  assumes "run \<in> runs nrows ncols"
  shows "map (flat_index ncols) run \<in> set (line_indices nrows ncols)"
proof -
  from assms obtain pr pc d where run: "run = run_from (pr, pc) d"
    and d: "d \<in> set directions" and fits: "list_all (on_board nrows ncols) (run_from (pr, pc) d)"
    unfolding runs_def by auto
  obtain dr dc where dd: "d = (dr, dc)" by (cases d)
  from fits have first: "0 \<le> pr" "0 \<le> pc" "pr < int nrows" "pc < int ncols"
    and last: "0 \<le> pr + 3 * dr" "pr + 3 * dr < int nrows"
              "0 \<le> pc + 3 * dc" "pc + 3 * dc < int ncols"
    by (simp_all add: dd run_from_cells on_board_def)
  from first obtain r c where rc: "pr = int r" "pc = int c"
    using nonneg_int_cases by metis
  from d consider "d = (0, 1)" | "d = (1, 0)" | "d = (1, 1)" | "d = (1, -1)"
    by (auto simp: directions_def)
  then show ?thesis
  proof cases
    case 1
    with last first rc dd have "r < nrows" "c < ncols - 3" by simp_all
    then have "quad (r * ncols + c) 1 \<in> set (line_indices nrows ncols)"
      unfolding set_line_indices by auto
    then show ?thesis by (simp add: run rc 1 flat_run_right)
  next
    case 2
    with last first rc dd have "r < nrows - 3" "c < ncols" by simp_all
    then have "quad (r * ncols + c) ncols \<in> set (line_indices nrows ncols)"
      unfolding set_line_indices by auto
    then show ?thesis by (simp add: run rc 2 flat_run_down)
  next
    case 3
    with last first rc dd have "r < nrows - 3" "c < ncols - 3" by simp_all
    then have "quad (r * ncols + c) (ncols + 1) \<in> set (line_indices nrows ncols)"
      unfolding set_line_indices by auto
    then show ?thesis by (simp add: run rc 3 flat_run_down_right)
  next
    case 4
    with last first rc dd have b: "r < nrows - 3" "3 \<le> c" "c < ncols" by simp_all
    then have "quad (r * ncols + c) (ncols - 1) \<in> set (line_indices nrows ncols)"
      unfolding set_line_indices by auto
    then show ?thesis by (simp add: run rc 4 flat_run_down_left[OF b(2,3)])
  qed
qed

lemma distinct_line_slices: "distinct (line_slices nrows ncols)"
proof -
  let ?h = "concat (map (\<lambda>row. map (\<lambda>column.
         (row * ncols + column, row * ncols + column + 4, 1::nat))
       [0 ..< ncols - 3]) [0 ..< nrows])"
  let ?v = "concat (map (\<lambda>row. map (\<lambda>column.
         (row * ncols + column, (row + 4) * ncols + column, ncols))
       [0 ..< ncols]) [0 ..< nrows - 3])"
  let ?d = "concat (map (\<lambda>row. map (\<lambda>column.
         (row * ncols + column, (row + 4) * ncols + column + 4, ncols + 1))
       [0 ..< ncols - 3]) [0 ..< nrows - 3])"
  let ?a = "concat (map (\<lambda>row. map (\<lambda>column.
         (row * ncols + column, (row + 4) * ncols + column - 4, ncols - 1))
       [3 ..< ncols]) [0 ..< nrows - 3])"
  have h: "distinct ?h"
    by (rule distinct_nested_loops) (auto dest: cell_index_inj[rotated 2])
  have v: "distinct ?v"
    by (rule distinct_nested_loops) (auto dest: cell_index_inj[rotated 2])
  have d: "distinct ?d"
    by (rule distinct_nested_loops) (auto dest: cell_index_inj[rotated 2])
  have a: "distinct ?a"
    by (rule distinct_nested_loops) (auto dest: cell_index_inj[rotated 2])
  have apart: "set ?h \<inter> set ?v = {}" "set ?h \<inter> set ?d = {}" "set ?h \<inter> set ?a = {}"
    "set ?v \<inter> set ?d = {}" "set ?v \<inter> set ?a = {}" "set ?d \<inter> set ?a = {}"
    unfolding set_nested_loops by auto
  from h v d a apart show ?thesis
    unfolding line_slices_def distinct_append set_append by blast
qed

lemma distinct_line_indices: "distinct (line_indices nrows ncols)"
  unfolding line_indices_quads
proof (rule distinct_map[THEN iffD2], rule conjI[OF distinct_line_slices], rule inj_onI)
  fix t t'
  assume t: "t \<in> set (line_slices nrows ncols)" and t': "t' \<in> set (line_slices nrows ncols)"
    and eq: "(case t of (start, stop, step) \<Rightarrow> quad start step)
              = (case t' of (start, stop, step) \<Rightarrow> quad start step)"
  obtain a b st where [simp]: "t = (a, b, st)" by (cases t)
  obtain a' b' st' where [simp]: "t' = (a', b', st')" by (cases t')
  from eq have "a = a'" "st = st'" by (simp_all add: quad_def)
  moreover from line_slices_shape[of a b st] line_slices_shape[of a' b' st'] t t'
  have "b = a + 4 * st" "b' = a' + 4 * st'" by simp_all
  ultimately show "t = t'" by simp
qed

lemma line_indices_increasing:
  assumes "line \<in> set (line_indices nrows ncols)"
  shows "sorted line \<and> distinct line"
proof -
  from assms obtain start stop step where "(start, stop, step) \<in> set (line_slices nrows ncols)"
    and "line = quad start step"
    unfolding line_indices_quads by auto
  with line_slices_shape[of start stop step nrows ncols] show ?thesis
    by (simp add: quad_def)
qed

lemma distinct_line_cell_sets: "distinct (map set (line_indices nrows ncols))"
proof (rule distinct_map[THEN iffD2], rule conjI[OF distinct_line_indices], rule inj_onI)
  fix x y
  assume "x \<in> set (line_indices nrows ncols)" "y \<in> set (line_indices nrows ncols)"
    and "set x = set y"
  with line_indices_increasing[of x] line_indices_increasing[of y]
  show "x = y" by (intro sorted_distinct_set_unique) simp_all
qed

lemma flat_index_inj_on_board:
  "inj_on (flat_index ncols) {cell. on_board nrows ncols cell}"
proof (rule inj_onI)
  fix x y :: "int \<times> int"
  assume x: "x \<in> {cell. on_board nrows ncols cell}" and y: "y \<in> {cell. on_board nrows ncols cell}"
    and eq: "flat_index ncols x = flat_index ncols y"
  obtain r c where [simp]: "x = (r, c)" by (cases x)
  obtain r' c' where [simp]: "y = (r', c')" by (cases y)
  from x y have b: "0 \<le> r" "0 \<le> c" "c < int ncols" "0 \<le> r'" "0 \<le> c'" "c' < int ncols"
    by (simp_all add: on_board_def)
  from eq b have "nat r * ncols + nat c = nat r' * ncols + nat c'"
    by (simp add: flat_index_nonneg)
  moreover have "nat c < ncols" "nat c' < ncols" using b by simp_all
  ultimately have "nat r = nat r' \<and> nat c = nat c'" by (rule cell_index_inj[rotated 2])
  then have "int (nat r) = int (nat r')" "int (nat c) = int (nat c')" by simp_all
  with b show "x = y" by simp
qed

lemma runs_on_board: "run \<in> runs nrows ncols \<Longrightarrow> set run \<subseteq> {cell. on_board nrows ncols cell}"
  by (auto simp: runs_def list_all_iff)

lemma flat_index_inj_on_runs: "inj_on (map (flat_index ncols)) (runs nrows ncols)"
proof (rule inj_onI)
  fix x y
  assume x: "x \<in> runs nrows ncols" and y: "y \<in> runs nrows ncols"
    and eq: "map (flat_index ncols) x = map (flat_index ncols) y"
  have "inj_on (flat_index ncols) (set x \<union> set y)"
    using runs_on_board[OF x] runs_on_board[OF y]
    by (intro inj_on_subset[OF flat_index_inj_on_board]) auto
  with eq show "x = y" by (simp add: inj_on_map_eq_map)
qed

lemma generate_lines_reads:
  assumes "length (board s) = n_rows s * n_columns s"
  shows "generate_lines s = map (map (\<lambda>i. board s ! i)) (line_indices (n_rows s) (n_columns s))"
  by (simp add: generate_lines_def line_indices_def slice_def assms case_prod_unfold)

text \<open>
  Claim C3. For every board size, the positions read by the lines that \<^verbatim>\<open>_generate_lines\<close>
  yields are exactly the runs of four cells (to the right, down, down-right, down-left) that fit
  on the board, taken to flat positions; different runs give different lines; no line is yielded
  twice, and no two yielded lines cover the same set of cells. On a board of
  \<open>nrows * ncols\<close> cells each yielded line holds the cell values at these positions.
\<close>

theorem generate_lines_exact:
  "set (line_indices nrows ncols) = map (flat_index ncols) ` runs nrows ncols \<and>
   inj_on (map (flat_index ncols)) (runs nrows ncols) \<and>
   distinct (line_indices nrows ncols) \<and>
   distinct (map set (line_indices nrows ncols)) \<and>
   (\<forall>s :: 'tok state. n_rows s = nrows \<and> n_columns s = ncols \<and> length (board s) = nrows * ncols \<longrightarrow>
      generate_lines s = map (map (\<lambda>i. board s ! i)) (line_indices nrows ncols))"
proof -
  have "set (line_indices nrows ncols) = map (flat_index ncols) ` runs nrows ncols"
    using line_is_run run_is_line by blast
  moreover have "\<forall>s :: 'tok state.
      n_rows s = nrows \<and> n_columns s = ncols \<and> length (board s) = nrows * ncols \<longrightarrow>
      generate_lines s = map (map (\<lambda>i. board s ! i)) (line_indices nrows ncols)"
    using generate_lines_reads by fastforce
  ultimately show ?thesis
    by (simp only: flat_index_inj_on_runs distinct_line_indices distinct_line_cell_sets simp_thms)
qed

theorem generate_lines_exact_witness:
  "run_from (0, 3) (1, -1) \<in> runs 4 5 \<and> [3, 7, 11, 15] \<in> set (line_indices 4 5) \<and>
   runs 3 3 = {}"
proof -
  have run: "run_from (0, 3) (1, -1) \<in> runs 4 5"
    by (intro runs_intro) (simp_all add: directions_def run_from_cells on_board_def)
  have flat: "map (flat_index 5) (run_from (0, 3) (1, -1)) = [3, 7, 11, 15]"
    by (simp add: run_from_cells flat_index_def)
  have none: "line_indices 3 3 = []"
    by (simp add: line_indices_def line_slices_def)
  from generate_lines_exact[where ?'tok = unit and nrows = 4 and ncols = 5] run flat
  have "[3, 7, 11, 15] \<in> set (line_indices 4 5)" by (metis imageI)
  moreover from generate_lines_exact[where ?'tok = unit and nrows = 3 and ncols = 3] none have "runs 3 3 = {}" by simp
  ultimately show ?thesis using run by simp
qed

section \<open>Reachable states and gravity\<close>

lemma norm_index_less: "norm_index n i = Some j \<Longrightarrow> j < n"
  by (auto simp: norm_index_def split: if_splits)

lemma scan_column_prefix:
  assumes len: "length b = nrows * ncols" and col: "1 \<le> column" "column \<le> int ncols"
    and m: "m \<le> nrows"
    and above: "\<forall>r < m. b ! (r * ncols + nat (column - 1)) = None"
    and at: "m < nrows \<longrightarrow> b ! (m * ncols + nat (column - 1)) \<noteq> None"
    and k: "k \<le> m"
  shows "scan_column b ncols column [k ..< nrows] lowest
           = Inr (if k < m then Some (m - 1) else lowest)"
  using k
proof (induction "m - k" arbitrary: k lowest)
  case 0
  then have km: "k = m" by simp
  show ?case
  proof (cases "m < nrows")
    case True
    then have rows: "[m ..< nrows] = m # [Suc m ..< nrows]"
      by (simp add: upt_conv_Cons)
    from cell_index_bounds[OF True col] len
    have "getitem b (int m * int ncols + column - 1) = Inr (b ! (m * ncols + nat (column - 1)))"
      by (simp add: getitem_in_range)
    with at True show ?thesis unfolding km rows by simp
  next
    case False
    with m km show ?thesis by simp
  qed
next
  case (Suc d)
  then have lt: "k < m" by simp
  with m have kn: "k < nrows" by simp
  then have rows: "[k ..< nrows] = k # [Suc k ..< nrows]"
    by (simp add: upt_conv_Cons)
  from cell_index_bounds[OF kn col] len
  have "getitem b (int k * int ncols + column - 1) = Inr (b ! (k * ncols + nat (column - 1)))"
    by (simp add: getitem_in_range)
  with above lt have get: "getitem b (int k * int ncols + column - 1) = Inr None" by simp
  have "scan_column b ncols column [Suc k ..< nrows] (Some k)
          = Inr (if Suc k < m then Some (m - 1) else Some k)"
    using Suc.hyps(2) lt by (intro Suc.hyps(1)) simp_all
  moreover have "(if Suc k < m then Some (m - 1) else Some k) = Some (m - 1)"
    using lt by auto
  ultimately show ?case using lt by (simp add: rows get)
qed

lemma first_occupied_row:
  fixes nrows :: nat
  shows "\<exists>m \<le> nrows. (\<forall>r < m. P r) \<and> (m < nrows \<longrightarrow> \<not> P m)"
proof (cases "\<forall>r < nrows. P r")
  case True
  then show ?thesis by (intro exI[of _ nrows]) simp
next
  case False
  then obtain r where r: "r < nrows" "\<not> P r" by blast
  define m where "m = (LEAST r. \<not> P r)"
  have "\<not> P m" unfolding m_def using r(2) by (rule LeastI)
  moreover have "m \<le> r" unfolding m_def using r(2) by (rule Least_le)
  moreover have "\<forall>r < m. P r" unfolding m_def using not_less_Least by blast
  ultimately show ?thesis using r(1) by (intro exI[of _ m]) simp
qed

lemma place_token_valid:
  assumes len: "length (board s) = n_rows s * n_columns s"
    and col: "1 \<le> column" "column \<le> int (n_columns s)"
    and m: "m \<le> n_rows s"
    and above: "\<forall>r < m. board s ! (r * n_columns s + nat (column - 1)) = None"
    and at: "m < n_rows s \<longrightarrow> board s ! (m * n_columns s + nat (column - 1)) \<noteq> None"
  shows "place_token column tok s =
           (if m = 0 then (Inl ActionError, s)
            else (case forward (token_map s) tok of
                    None \<Rightarrow> (Inl KeyError, s)
                  | Some i \<Rightarrow>
                      (Inr (), s\<lparr>board := (board s)[(m - 1) * n_columns s + nat (column - 1)
                                                       := Some i]\<rparr>)))"
proof -
  have scan: "scan_column (board s) (n_columns s) column [0 ..< n_rows s] None
                = Inr (if 0 < m then Some (m - 1) else None)"
    using scan_column_prefix[OF len col m above at, of 0 None] by simp
  show ?thesis
  proof (cases "m = 0")
    case True
    with scan show ?thesis by (simp add: place_token_def)
  next
    case False
    then have row: "m - 1 < n_rows s" using m by simp
    from cell_index_bounds[OF row col] len
    have "setitem (board s) (int (m - 1) * int (n_columns s) + column - 1) v
            = Inr ((board s)[(m - 1) * n_columns s + nat (column - 1) := v])" for v
      by (simp add: setitem_in_range)
    with scan False show ?thesis
      by (simp add: place_token_def split: option.splits)
  qed
qed

lemma scan_column_found:
  "scan_column b ncols column rows lowest = Inr (Some row) \<Longrightarrow>
     lowest = Some row \<or> getitem b (int row * int ncols + column - 1) = Inr None"
  by (induction rows arbitrary: lowest) (auto split: sum.splits if_splits)

lemma place_token_success:
  assumes "place_token column tok s = (Inr u, s')"
  shows "\<exists>j i. j < length (board s) \<and> board s ! j = None \<and>
           forward (token_map s) tok = Some i \<and> s' = s\<lparr>board := (board s)[j := Some i]\<rparr>"
proof -
  from assms obtain row i where
    sc: "scan_column (board s) (n_columns s) column [0 ..< n_rows s] None = Inr (Some row)"
    and fw: "forward (token_map s) tok = Some i"
    and st: "setitem (board s) (int row * int (n_columns s) + column - 1) (Some i)
               = Inr (board s')"
    and s': "s' = s\<lparr>board := board s'\<rparr>"
    by (auto simp: place_token_def split: sum.splits option.splits)
  from scan_column_found[OF sc]
  have "getitem (board s) (int row * int (n_columns s) + column - 1) = Inr None" by simp
  then obtain j where
    j: "norm_index (length (board s)) (int row * int (n_columns s) + column - 1) = Some j"
    and none: "board s ! j = None"
    by (auto simp: getitem_def split: option.splits)
  from st j have "board s' = (board s)[j := Some i]" by (simp add: setitem_def)
  with s' have "s' = s\<lparr>board := (board s)[j := Some i]\<rparr>" by simp
  with norm_index_less[OF j] none fw show ?thesis by blast
qed

lemma reachable_shape:
  assumes "reachable toks sz s"
  shows "n_rows s = fst sz \<and> n_columns s = snd sz \<and>
         token_map s = dict_comp (zip toks [0 ..< length toks]) \<and>
         length (board s) = fst sz * snd sz"
  using assms
proof (induction rule: reachable.induct)
  case start
  show ?case by (simp add: State_init_def)
next
  case (placed s column tok u s')
  from place_token_success[OF placed.hyps(4)] placed.IH show ?case by auto
qed

lemma reachable_length:
  "reachable toks sz s \<Longrightarrow> length (board s) = n_rows s * n_columns s"
  using reachable_shape by fastforce

lemma settled_after_place:
  assumes len: "length (board s) = n_rows s * n_columns s"
    and col: "1 \<le> column" "column \<le> int (n_columns s)"
    and m: "0 < m" "m \<le> n_rows s"
    and above: "\<forall>r < m. board s ! (r * n_columns s + nat (column - 1)) = None"
    and at: "m < n_rows s \<longrightarrow> board s ! (m * n_columns s + nat (column - 1)) \<noteq> None"
    and settled: "settled s"
  shows "settled (s\<lparr>board := (board s)[(m - 1) * n_columns s + nat (column - 1) := Some i]\<rparr>)"
proof -
  let ?C = "n_columns s" and ?c0 = "nat (column - 1)" and ?b = "board s"
  let ?t = "(m - 1) * ?C + ?c0"
  have c0: "?c0 < ?C" using col by simp
  have inb: "r * ?C + c < length ?b" if "r < n_rows s" "c < ?C" for r c
  proof -
    have "r * ?C + 1 * ?C \<le> n_rows s * ?C" using that(1) by (intro rows_below) simp
    with that(2) len show ?thesis by simp
  qed
  have upd: "?b[?t := Some i] ! (r * ?C + c) = (if r = m - 1 \<and> c = ?c0 then Some i else ?b ! (r * ?C + c))"
    if "r < n_rows s" "c < ?C" for r c
  proof (cases "r * ?C + c = ?t")
    case True
    with cell_index_inj[OF that(2) c0 True] inb[OF that] show ?thesis by simp
  next
    case False
    then have "\<not> (r = m - 1 \<and> c = ?c0)" by auto
    with False show ?thesis by auto
  qed
  have below: "?b ! (r * ?C + ?c0) \<noteq> None" if "m \<le> r" "r < n_rows s" for r
  proof -
    from that have "m < n_rows s" by simp
    with at have "?b ! (m * ?C + ?c0) \<noteq> None" by simp
    with settled c0 that show ?thesis unfolding settled_def by blast
  qed
  show ?thesis
    unfolding settled_def
  proof (intro allI impI, elim conjE)
    fix c r r'
    let ?s' = "s\<lparr>board := ?b[?t := Some i]\<rparr>"
    assume c: "c < n_columns ?s'" and rr: "r \<le> r'" and r': "r' < n_rows ?s'"
      and occ: "board ?s' ! (r * n_columns ?s' + c) \<noteq> None"
    from c r' rr have c': "c < ?C" and r'n: "r' < n_rows s" and rn: "r < n_rows s" by simp_all
    from occ have occ': "(if r = m - 1 \<and> c = ?c0 then Some i else ?b ! (r * ?C + c)) \<noteq> None"
      using upd[OF rn c'] by simp
    have "(if r' = m - 1 \<and> c = ?c0 then Some i else ?b ! (r' * ?C + c)) \<noteq> None"
    proof (cases "c = ?c0")
      case True
      show ?thesis
      proof (cases "r' < m - 1")
        case True
        with rr have "r < m" "r \<noteq> m - 1" by simp_all
        with above occ' \<open>c = ?c0\<close> show ?thesis by simp
      next
        case False
        then have "r' = m - 1 \<or> m \<le> r'" by auto
        with below[OF _ r'n] True show ?thesis by auto
      qed
    next
      case False
      with occ' have "?b ! (r * ?C + c) \<noteq> None" by simp
      with settled c' rr r'n have "?b ! (r' * ?C + c) \<noteq> None"
        unfolding settled_def by blast
      with False show ?thesis by simp
    qed
    then show "board ?s' ! (r' * n_columns ?s' + c) \<noteq> None"
      using upd[OF r'n c'] by simp
  qed
qed

lemma cell_in_board:
  fixes r :: nat
  assumes "r < nrows" "c < ncols"
  shows "r * ncols + c < nrows * ncols"
proof -
  have "r * ncols + 1 * ncols \<le> nrows * ncols" using assms(1) by (intro rows_below) simp
  with assms(2) show ?thesis by simp
qed

lemma settled_start: "settled (State_init toks sz)"
  unfolding settled_def by (simp add: State_init_def cell_in_board)

lemma place_token_reachable:
  assumes len: "length (board s) = n_rows s * n_columns s"
    and col: "1 \<le> column" "column \<le> int (n_columns s)"
    and ok: "place_token column tok s = (Inr u, s')"
  shows "\<exists>m i. 0 < m \<and> m \<le> n_rows s \<and>
           (\<forall>r < m. board s ! (r * n_columns s + nat (column - 1)) = None) \<and>
           (m < n_rows s \<longrightarrow> board s ! (m * n_columns s + nat (column - 1)) \<noteq> None) \<and>
           forward (token_map s) tok = Some i \<and>
           s' = s\<lparr>board := (board s)[(m - 1) * n_columns s + nat (column - 1) := Some i]\<rparr>"
proof -
  obtain m where m: "m \<le> n_rows s"
    and above: "\<forall>r < m. board s ! (r * n_columns s + nat (column - 1)) = None"
    and at: "m < n_rows s \<longrightarrow> board s ! (m * n_columns s + nat (column - 1)) \<noteq> None"
    using first_occupied_row[of "n_rows s" "\<lambda>r. board s ! (r * n_columns s + nat (column - 1)) = None"]
    by blast
  note eq = place_token_valid[OF len col m above at, of tok]
  from eq ok have pos: "0 < m" by (cases "m = 0") simp_all
  with eq ok obtain i where "forward (token_map s) tok = Some i"
    and "s' = s\<lparr>board := (board s)[(m - 1) * n_columns s + nat (column - 1) := Some i]\<rparr>"
    by (cases "forward (token_map s) tok") simp_all
  with pos m above at show ?thesis by blast
qed

lemma reachable_settled:
  assumes "reachable toks sz s"
  shows "settled s"
  using assms
proof (induction rule: reachable.induct)
  case start
  show ?case by (rule settled_start)
next
  case (placed s column tok u s')
  note len = reachable_length[OF placed.hyps(1)]
  from place_token_reachable[OF len placed.hyps(2,3,4)] obtain m i where
    "0 < m" "m \<le> n_rows s"
    "\<forall>r < m. board s ! (r * n_columns s + nat (column - 1)) = None"
    "m < n_rows s \<longrightarrow> board s ! (m * n_columns s + nat (column - 1)) \<noteq> None"
    and s': "s' = s\<lparr>board := (board s)[(m - 1) * n_columns s + nat (column - 1) := Some i]\<rparr>"
    by blast
  then show ?case
    unfolding s' using placed.IH placed.hyps(2,3) len by (intro settled_after_place) simp_all
qed

lemma place_token_settled:
  assumes len: "length (board s) = n_rows s * n_columns s"
    and settled: "settled s"
    and col: "1 \<le> column" "column \<le> int (n_columns s)"
    and tok: "forward (token_map s) tok = Some i"
    and room: "\<exists>row < n_rows s. board s ! (row * n_columns s + nat (column - 1)) = None"
  shows "\<exists>row < n_rows s.
           board s ! (row * n_columns s + nat (column - 1)) = None \<and>
           (\<forall>r. row < r \<and> r < n_rows s \<longrightarrow>
                board s ! (r * n_columns s + nat (column - 1)) \<noteq> None) \<and>
           (\<forall>r < row. board s ! (r * n_columns s + nat (column - 1)) = None) \<and>
           place_token column tok s =
             (Inr (), s\<lparr>board := (board s)[row * n_columns s + nat (column - 1) := Some i]\<rparr>) \<and>
           (\<forall>j < length (board s). board s ! j \<noteq> None \<longrightarrow>
                (board s)[row * n_columns s + nat (column - 1) := Some i] ! j = board s ! j) \<and>
           settled (s\<lparr>board := (board s)[row * n_columns s + nat (column - 1) := Some i]\<rparr>)"
proof -
  let ?cell = "\<lambda>r. board s ! (r * n_columns s + nat (column - 1))"
  have c0: "nat (column - 1) < n_columns s" using col by simp
  obtain m where m: "m \<le> n_rows s" and above: "\<forall>r < m. ?cell r = None"
    and at: "m < n_rows s \<longrightarrow> ?cell m \<noteq> None"
    using first_occupied_row[of "n_rows s" "\<lambda>r. ?cell r = None"] by blast
  have below: "?cell r \<noteq> None" if "m \<le> r" "r < n_rows s" for r
  proof -
    from that at have "?cell m \<noteq> None" by simp
    with settled c0 that show ?thesis unfolding settled_def by blast
  qed
  from room below have pos: "0 < m" by (metis not_le_imp_less not_gr_zero le0)
  let ?row = "m - 1"
  have row: "?row < n_rows s" using pos m by simp
  have "?cell ?row = None" using above pos by simp
  moreover have "\<forall>r. ?row < r \<and> r < n_rows s \<longrightarrow> ?cell r \<noteq> None"
    using below by auto
  moreover have "\<forall>r < ?row. ?cell r = None" using above by simp
  moreover have "place_token column tok s =
      (Inr (), s\<lparr>board := (board s)[?row * n_columns s + nat (column - 1) := Some i]\<rparr>)"
    using place_token_valid[OF len col m above at, of tok] pos tok by simp
  moreover have "\<forall>j < length (board s). board s ! j \<noteq> None \<longrightarrow>
      (board s)[?row * n_columns s + nat (column - 1) := Some i] ! j = board s ! j"
    using \<open>?cell ?row = None\<close> by (metis nth_list_update_neq)
  moreover have "settled (s\<lparr>board := (board s)[?row * n_columns s + nat (column - 1) := Some i]\<rparr>)"
    using len col pos m above at settled by (rule settled_after_place)
  ultimately show ?thesis using row by blast
qed


text \<open>
  Claim C2. In every reachable state, for a column index within \<open>[1, n_columns]\<close> whose column
  has an empty cell and a token of the token map, \<^verbatim>\<open>place_token\<close> succeeds and writes the
  token's internal id into the lowest empty cell of the column: the cell is empty, every cell below
  it is occupied and every cell above it is empty. Nothing else changes; in particular every
  occupied cell keeps its content, and in the state after the call tokens have settled again: in
  every column each cell below an occupied cell is occupied, so tokens stack upward without gaps.
\<close>

theorem place_token_lowest_empty:
  assumes reach: "reachable toks sz s"
    and col: "1 \<le> column" "column \<le> int (n_columns s)"
    and tok: "forward (token_map s) tok = Some i"
    and room: "\<exists>row < n_rows s. board s ! (row * n_columns s + nat (column - 1)) = None"
  shows "\<exists>row < n_rows s.
           board s ! (row * n_columns s + nat (column - 1)) = None \<and>
           (\<forall>r. row < r \<and> r < n_rows s \<longrightarrow>
                board s ! (r * n_columns s + nat (column - 1)) \<noteq> None) \<and>
           (\<forall>r < row. board s ! (r * n_columns s + nat (column - 1)) = None) \<and>
           place_token column tok s =
             (Inr (), s\<lparr>board := (board s)[row * n_columns s + nat (column - 1) := Some i]\<rparr>) \<and>
           (\<forall>j < length (board s). board s ! j \<noteq> None \<longrightarrow>
                (board s)[row * n_columns s + nat (column - 1) := Some i] ! j = board s ! j) \<and>
           settled (s\<lparr>board := (board s)[row * n_columns s + nat (column - 1) := Some i]\<rparr>)"
  using reachable_length[OF reach] reachable_settled[OF reach] col tok room
  by (rule place_token_settled)

theorem place_token_lowest_empty_witness:
  "reachable [''X'', ''O''] (3, 2) placed_once \<and>
   (\<exists>row < n_rows placed_once.
      board placed_once ! (row * n_columns placed_once + nat (1 - 1)) = None \<and>
      place_token 1 ''O'' placed_once =
        (Inr (), placed_once\<lparr>board := (board placed_once)
                     [row * n_columns placed_once + nat (1 - 1) := Some 1]\<rparr>))"
proof -
  have step: "place_token 1 ''X'' (State_init [''X'', ''O''] (3, 2)) = (Inr (), placed_once)"
    by code_simp
  have cols: "(1::int) \<le> int (n_columns (State_init [''X'', ''O''] (3, 2)))"
    by code_simp
  have reach: "reachable [''X'', ''O''] (3, 2) placed_once"
    using reachable.placed[OF reachable.start _ cols step] by simp
  have col: "(1::int) \<le> int (n_columns placed_once)" by code_simp
  have tok: "forward (token_map placed_once) ''O'' = Some 1" by code_simp
  have "board placed_once ! (0 * n_columns placed_once + nat (1 - 1)) = None"
    "0 < n_rows placed_once"
    by code_simp+
  then have room: "\<exists>row < n_rows placed_once.
      board placed_once ! (row * n_columns placed_once + nat (1 - 1)) = None"
    by blast
  from place_token_lowest_empty[OF reach _ col tok room] reach show ?thesis by blast
qed

section \<open>The token map and the view handed to agents\<close>

lemma fold_update_keys:
  "fst ` set (fold (\<lambda>(k, v). AList.update k v) kvs acc) = fst ` set kvs \<union> fst ` set acc"
proof (induction kvs arbitrary: acc)
  case Nil
  show ?case by simp
next
  case (Cons kv kvs)
  obtain k v where [simp]: "kv = (k, v)" by (cases kv)
  have "fst ` set (AList.update k v acc) = insert k (fst ` set acc)"
    by (simp add: dom_update)
  with Cons[of "AList.update k v acc"] show ?case by auto
qed

lemma fold_update_distinct:
  "distinct (map fst acc) \<Longrightarrow> distinct (map fst (fold (\<lambda>(k, v). AList.update k v) kvs acc))"
  by (induction kvs arbitrary: acc) (auto simp: distinct_update)

lemma set_update_subset: "set (AList.update k v al) \<subseteq> insert (k, v) (set al)"
  by (induction al) auto

lemma fold_update_subset:
  "set (fold (\<lambda>(k, v). AList.update k v) kvs acc) \<subseteq> set kvs \<union> set acc"
proof (induction kvs arbitrary: acc)
  case Nil
  show ?case by simp
next
  case (Cons kv kvs)
  obtain k v where [simp]: "kv = (k, v)" by (cases kv)
  from Cons[of "AList.update k v acc"] set_update_subset[of k v acc]
  show ?case by auto
qed

lemma dict_comp_keys: "fst ` set (dict_comp kvs) = fst ` set kvs"
  by (simp add: dict_comp_def fold_update_keys)

lemma dict_comp_subset: "set (dict_comp kvs) \<subseteq> set kvs"
  using fold_update_subset[of kvs "[]"] by (simp add: dict_comp_def)

lemma dict_comp_distinct: "distinct (map fst (dict_comp kvs))"
  by (simp add: dict_comp_def fold_update_distinct)

lemma token_map_values_distinct:
  "distinct (map snd (token_map (State_init external_tokens sz)))"
proof -
  let ?m = "dict_comp (zip external_tokens [0 ..< length external_tokens])"
  have "distinct ?m" using dict_comp_distinct[of "zip external_tokens [0 ..< length external_tokens]"]
    by (rule distinct_map[THEN iffD1, THEN conjunct1])
  moreover have "inj_on snd (set ?m)"
  proof (rule inj_onI)
    fix x y assume x: "x \<in> set ?m" and y: "y \<in> set ?m" and eq: "snd x = snd y"
    from x y dict_comp_subset
    have "x \<in> set (zip external_tokens [0 ..< length external_tokens])"
      "y \<in> set (zip external_tokens [0 ..< length external_tokens])" by blast+
    then have "fst x = external_tokens ! snd x" "fst y = external_tokens ! snd y"
      by (auto simp: set_zip)
    with eq show "x = y" by (simp add: prod_eq_iff)
  qed
  ultimately show ?thesis by (simp add: distinct_map State_init_def)
qed

lemma forward_inverse:
  assumes "forward m k = Some v"
  shows "inverse_of m v \<noteq> None"
proof -
  from assms have "(k, v) \<in> set m" by (simp add: forward_def map_of_SomeD)
  then have "v \<in> fst ` set (map (\<lambda>(k, v). (v, k)) m)" by force
  then show ?thesis by (simp add: inverse_of_def map_of_eq_None_iff)
qed

lemma inverse_is_key:
  assumes "inverse_of m v = Some k"
  shows "k \<in> fst ` set m"
proof -
  from assms have "(v, k) \<in> set (map (\<lambda>(k, v). (v, k)) m)"
    unfolding inverse_of_def by (rule map_of_SomeD)
  then show ?thesis by force
qed

lemma inverse_forward:
  assumes "distinct (map fst m)" "inverse_of m v = Some k"
  shows "forward m k = Some v"
proof -
  from assms(2) have "(v, k) \<in> set (map (\<lambda>(k, v). (v, k)) m)"
    unfolding inverse_of_def by (rule map_of_SomeD)
  then have "(k, v) \<in> set m" by auto
  with assms(1) show ?thesis unfolding forward_def by (rule map_of_is_SomeI)
qed

lemma token_map_keys:
  "fst ` set (dict_comp (zip toks [0 ..< length toks])) = set toks"
proof -
  have "map fst (zip toks [0 ..< length toks]) = toks"
    by (rule map_fst_zip) simp
  then have "set (map fst (zip toks [0 ..< length toks])) = set toks" by (rule arg_cong)
  then have "fst ` set (zip toks [0 ..< length toks]) = set toks" by (simp only: set_map)
  then show ?thesis by (simp only: dict_comp_keys)
qed

lemma reachable_known:
  assumes "reachable toks sz s"
  shows "list_all (known_cell (token_map s)) (board s)"
  using assms
proof (induction rule: reachable.induct)
  case start
  show ?case by (simp add: State_init_def list_all_iff known_cell_def)
next
  case (placed s column tok u s')
  from place_token_success[OF placed.hyps(4)] obtain j i where
    fw: "forward (token_map s) tok = Some i" and s': "s' = s\<lparr>board := (board s)[j := Some i]\<rparr>"
    by blast
  from forward_inverse[OF fw] have "known_cell (token_map s) (Some i)"
    by (simp add: known_cell_def)
  with placed.IH show ?case
    unfolding s' list_all_iff using set_update_subset_insert[of "board s" j "Some i"] by auto
qed


lemma translate_cells_known:
  assumes "list_all (known_cell m) cells"
  shows "translate_cells m cells
           = Inr (map (\<lambda>cell. case cell of None \<Rightarrow> None | Some i \<Rightarrow> inverse_of m i) cells)"
  using assms
proof (induction m cells rule: translate_cells.induct)
  case (1 m)
  show ?case by simp
next
  case (2 m cells)
  then show ?case by simp
next
  case (3 m i cells)
  then show ?case by (auto simp: known_cell_def)
qed

text \<open>
  Claim C8. In every reachable state \<^verbatim>\<open>expose_view\<close> succeeds, and every cell of the board of
  the view is the empty marker or one of the external tokens given at construction: an empty cell
  stays empty and an occupied cell shows the external token whose internal id the cell holds. The
  view's cells are of the type of external tokens, so no internal id can appear in it.
\<close>

theorem expose_view_external_tokens:
  assumes reach: "reachable toks sz s"
  shows "\<exists>view. expose_view s = Inr view \<and> board_size view = sz \<and>
           length (view_board view) = length (board s) \<and>
           (\<forall>j < length (board s). (view_board view ! j = None) = (board s ! j = None)) \<and>
           (\<forall>j < length (board s). \<forall>t. view_board view ! j = Some t \<longrightarrow>
              (\<exists>i. board s ! j = Some i \<and> forward (token_map s) t = Some i)) \<and>
           (\<forall>cell \<in> set (view_board view). cell = None \<or> (\<exists>t \<in> set toks. cell = Some t))"
proof -
  let ?tr = "\<lambda>cell. case cell of None \<Rightarrow> None | Some i \<Rightarrow> inverse_of (token_map s) i"
  let ?view = "\<lparr> board_size = (n_rows s, n_columns s), view_board = map ?tr (board s) \<rparr>"
  note known = reachable_known[OF reach]
  have ev: "expose_view s = Inr ?view"
    by (simp add: expose_view_def translate_cells_known[OF known])
  have tm: "token_map s = dict_comp (zip toks [0 ..< length toks])"
    and sz: "(n_rows s, n_columns s) = sz"
    using reachable_shape[OF reach] by simp_all
  have same: "(?tr (board s ! j) = None) = (board s ! j = None)" if "j < length (board s)" for j
  proof (cases "board s ! j")
    case None
    then show ?thesis by simp
  next
    case (Some i)
    with that known have "known_cell (token_map s) (Some i)"
      by (metis list_all_length)
    with Some show ?thesis by (simp add: known_cell_def)
  qed
  have ext: "cell = None \<or> (\<exists>t \<in> set toks. cell = Some t)" if "cell \<in> set (map ?tr (board s))" for cell
  proof (cases cell)
    case None
    then show ?thesis by simp
  next
    case (Some t)
    with that obtain i where "inverse_of (token_map s) i = Some t"
      by (auto split: option.splits)
    from inverse_is_key[OF this] have "t \<in> set toks" by (simp only: tm token_map_keys)
    with Some show ?thesis by simp
  qed
  have owner: "\<exists>i. board s ! j = Some i \<and> forward (token_map s) t = Some i"
    if "j < length (board s)" "?tr (board s ! j) = Some t" for j t
  proof -
    from that(2) obtain i where i: "board s ! j = Some i" "inverse_of (token_map s) i = Some t"
      by (auto split: option.splits)
    have "distinct (map fst (token_map s))" unfolding tm by (rule dict_comp_distinct)
    from inverse_forward[OF this i(2)] i(1) show ?thesis by simp
  qed
  from ev sz same owner ext show ?thesis by (intro exI[of _ ?view]) simp
qed

theorem expose_view_external_tokens_witness:
  "reachable [''X'', ''O''] (3, 2) placed_once \<and>
   expose_view placed_once =
     Inr \<lparr> board_size = (3, 2), view_board = [None, None, None, None, Some ''X'', None] \<rparr> \<and>
   (\<exists>view. expose_view placed_once = Inr view \<and>
      (\<forall>cell \<in> set (view_board view).
         cell = None \<or> (\<exists>t \<in> set [''X'', ''O'']. cell = Some t)))"
proof -
  have step: "place_token 1 ''X'' (State_init [''X'', ''O''] (3, 2)) = (Inr (), placed_once)"
    by code_simp
  have cols: "(1::int) \<le> int (n_columns (State_init [''X'', ''O''] (3, 2)))"
    by code_simp
  have reach: "reachable [''X'', ''O''] (3, 2) placed_once"
    using reachable.placed[OF reachable.start _ cols step] by simp
  have "expose_view placed_once =
     Inr \<lparr> board_size = (3, 2), view_board = [None, None, None, None, Some ''X'', None] \<rparr>"
    by code_simp
  with expose_view_external_tokens[OF reach] reach show ?thesis by blast
qed

section \<open>One turn of play\<close>

lemma check_action_valid:
  "structurally_valid ncols a \<longleftrightarrow> (\<exists>column. check_action ncols a = Inr column)"
  by (auto simp: structurally_valid_def check_action_def split: pyval.splits)

lemma check_action_column:
  "check_action ncols a = Inr column \<Longrightarrow>
     place_column a = PyInt column \<and> 1 \<le> column \<and> column \<le> int ncols"
  by (auto simp: check_action_def split: pyval.splits if_splits)

text \<open>
  Claim C5. For the action that the current agent returns in a turn, the checks of \<^verbatim>\<open>play\<close>
  raise exactly when the action is not structurally valid (kind other than PLACE, column not an
  integer, or column outside \<open>[1, n_columns]\<close>). When they raise, the turn ends with that error
  at once: the state and the outcome record are as before the turn. When the action is
  structurally valid, the checks pass, \<^verbatim>\<open>place_token\<close> is called with its column, and an error
  of the turn can only come from that call or from the outcome check.
\<close>

theorem play_structural_validation:
  assumes nxt: "cycle_next (l_agents v) = Some (current_agent, it)"
    and view: "expose_view (l_state v) = Inr view"
    and a: "a = select_action current_agent (length (asked v)) view"
  shows "(\<not> structurally_valid (snd (game_board_size g)) a \<longleftrightarrow>
            (\<exists>e. check_action (snd (game_board_size g)) a = Inl e)) \<and>
         (\<forall>e. check_action (snd (game_board_size g)) a = Inl e \<longrightarrow>
            turn g v = (Raise e, v\<lparr>l_agents := it, asked := asked v @ [current_agent]\<rparr>)) \<and>
         (\<forall>column. check_action (snd (game_board_size g)) a = Inr column \<longrightarrow>
            place_column a = PyInt column \<and>
            l_state (snd (turn g v)) = snd (place_token column (token current_agent) (l_state v)) \<and>
            (\<forall>e. fst (turn g v) = Raise e \<longrightarrow>
               fst (place_token column (token current_agent) (l_state v)) = Inl e \<or>
               check_for_outcome (l_state (snd (turn g v))) = Inl e))"
proof (intro conjI allI impI)
  show "(\<not> structurally_valid (snd (game_board_size g)) a) =
          (\<exists>e. check_action (snd (game_board_size g)) a = Inl e)"
    unfolding check_action_valid by (cases "check_action (snd (game_board_size g)) a") simp_all
next
  fix e assume "check_action (snd (game_board_size g)) a = Inl e"
  then show "turn g v = (Raise e, v\<lparr>l_agents := it, asked := asked v @ [current_agent]\<rparr>)"
    using nxt view a by (simp add: turn_def Let_def)
next
  fix column assume c: "check_action (snd (game_board_size g)) a = Inr column"
  then show "place_column a = PyInt column" by (simp add: check_action_column)
  show "l_state (snd (turn g v)) = snd (place_token column (token current_agent) (l_state v))"
    using nxt view a c
    by (simp add: turn_def Let_def split: prod.splits sum.splits)
  fix e assume "fst (turn g v) = Raise e"
  then show "fst (place_token column (token current_agent) (l_state v)) = Inl e \<or>
             check_for_outcome (l_state (snd (turn g v))) = Inl e"
    using nxt view a c
    by (simp add: turn_def Let_def split: prod.splits sum.splits if_splits)
qed

theorem play_structural_validation_witness:
  "\<not> structurally_valid (snd (game_board_size bad_game))
       (select_action (always ''X'' 0) 0 \<lparr> board_size = (2, 2), view_board = [None, None, None, None] \<rparr>) \<and>
   fst (turn bad_game bad_start) = Raise ValueError \<and>
   l_state (snd (turn bad_game bad_start)) = l_state bad_start \<and>
   l_outcome (snd (turn bad_game bad_start)) = l_outcome bad_start"
proof -
  let ?view = "\<lparr> board_size = (2, 2), view_board = [None, None, None, None :: string option] \<rparr>"
  let ?it = "\<lparr> pending = [always ''O'' 1], saved = [always ''X'' 0], first_pass = True \<rparr>"
  let ?a = "select_action (always ''X'' 0) (length (asked bad_start)) ?view"
  have nxt: "cycle_next (l_agents bad_start) = Some (always ''X'' 0, ?it)"
    by (simp add: bad_start_def play_start_def bad_game_def cycle_init_def cycle_next_def)
  have view: "expose_view (l_state bad_start) = Inr ?view"
    by (simp add: bad_start_def play_start_def bad_game_def expose_view_def State_init_def
        numeral_eq_Suc)
  have chk: "check_action (snd (game_board_size bad_game)) ?a = Inl ValueError"
    by (simp add: check_action_def always_def)
  have zero: "length (asked bad_start) = 0" by (simp add: bad_start_def play_start_def)
  from play_structural_validation[OF nxt view refl, of bad_game] chk
  have "\<not> structurally_valid (snd (game_board_size bad_game)) ?a"
    and "turn bad_game bad_start
           = (Raise ValueError, bad_start\<lparr>l_agents := ?it, asked := asked bad_start @ [always ''X'' 0]\<rparr>)"
    by blast+
  then show ?thesis by (simp add: zero)
qed

section \<open>Constructing a game\<close>

lemma check_agents_all: "check_agents (map IsAgent ags) = Inr ags"
  by (induction ags) auto

lemma check_agents_Inr: "check_agents elements = Inr ags \<Longrightarrow> elements = map IsAgent ags"
  by (induction elements arbitrary: ags rule: check_agents.induct) (auto split: sum.splits)

lemma check_board_size_two:
  "check_board_size [x, y] = Inr checked \<longleftrightarrow>
     (\<exists>r c. x = PyInt r \<and> y = PyInt c \<and> 1 \<le> r \<and> 1 \<le> c \<and> checked = [r, c])"
  by (cases x; cases y) auto

lemma check_agents_error: "check_agents elements = Inl e \<Longrightarrow> e = TypeError"
  by (induction elements arbitrary: e rule: check_agents.induct) (auto split: sum.splits)

lemma check_board_size_error:
  "check_board_size sizes = Inl e \<Longrightarrow> e = TypeError \<or> e = ValueError"
  by (induction sizes arbitrary: e rule: check_board_size.induct)
     (auto split: sum.splits if_splits)

lemma Game_init_error:
  assumes "Game_init agents_arg board_size_arg = Inl e"
  shows "e = TypeError \<or> e = ValueError"
proof (cases agents_arg)
  case NotSequence
  with assms show ?thesis by (simp add: Game_init_def)
next
  case (Sequence elements)
  note ag = this
  show ?thesis
  proof (cases "length elements < 2")
    case True
    with assms ag show ?thesis by (simp add: Game_init_def)
  next
    case False
    note long = this
    show ?thesis
    proof (cases "check_agents elements")
      case (Inl e')
      with assms ag long check_agents_error[OF Inl] show ?thesis by (simp add: Game_init_def)
    next
      case (Inr ags)
      note ca = this
      show ?thesis
      proof (cases board_size_arg)
        case NotSequence
        with assms ag long ca show ?thesis by (simp add: Game_init_def)
      next
        case (Sequence sizes)
        note bs = this
        show ?thesis
        proof (cases "check_board_size sizes")
          case (Inl e')
          with assms ag long ca bs check_board_size_error[OF Inl] show ?thesis
            by (auto simp: Game_init_def split: if_splits)
        next
          case (Inr checked)
          with assms ag long ca bs show ?thesis
            by (auto simp: Game_init_def split: if_splits)
        qed
      qed
    qed
  qed
qed

lemma Game_init_iff:
  "Game_init agents_arg board_size_arg = Inr g \<longleftrightarrow>
      (\<exists>ags r c. agents_arg = Sequence (map IsAgent ags) \<and> 2 \<le> length ags \<and>
         board_size_arg = Sequence [PyInt r, PyInt c] \<and> 1 \<le> r \<and> 1 \<le> c \<and>
         g = \<lparr> agents = ags, game_board_size = (nat r, nat c) \<rparr>)"
proof
  assume ok: "Game_init agents_arg board_size_arg = Inr g"
  then obtain elements where el: "agents_arg = Sequence elements" "\<not> length elements < 2"
    by (cases agents_arg) (auto simp: Game_init_def split: if_splits)
  with ok obtain ags where ags: "check_agents elements = Inr ags"
    by (cases "check_agents elements") (auto simp: Game_init_def)
  with ok el obtain sizes where sz: "board_size_arg = Sequence sizes" "length sizes = 2"
    by (cases board_size_arg) (auto simp: Game_init_def split: if_splits)
  then obtain x y where xy: "sizes = [x, y]"
    by (auto simp: length_Suc_conv numeral_2_eq_2)
  from ok el ags sz obtain checked where ch: "check_board_size sizes = Inr checked"
    and g: "g = \<lparr> agents = ags, game_board_size = (nat (checked ! 0), nat (checked ! 1)) \<rparr>"
    by (cases "check_board_size sizes") (auto simp: Game_init_def)
  from ch obtain r c where "x = PyInt r" "y = PyInt c" "1 \<le> r" "1 \<le> c" "checked = [r, c]"
    unfolding xy check_board_size_two by blast
  moreover from check_agents_Inr[OF ags] have "elements = map IsAgent ags" .
  ultimately show "\<exists>ags r c. agents_arg = Sequence (map IsAgent ags) \<and> 2 \<le> length ags \<and>
         board_size_arg = Sequence [PyInt r, PyInt c] \<and> 1 \<le> r \<and> 1 \<le> c \<and>
         g = \<lparr> agents = ags, game_board_size = (nat r, nat c) \<rparr>"
    using el sz xy g by auto
next
  assume "\<exists>ags r c. agents_arg = Sequence (map IsAgent ags) \<and> 2 \<le> length ags \<and>
         board_size_arg = Sequence [PyInt r, PyInt c] \<and> 1 \<le> r \<and> 1 \<le> c \<and>
         g = \<lparr> agents = ags, game_board_size = (nat r, nat c) \<rparr>"
  then show "Game_init agents_arg board_size_arg = Inr g"
    by (auto simp: Game_init_def check_agents_all)
qed

lemma Game_init_bad_dimension:
  assumes "board_size_arg = Sequence sizes"
    and "\<exists>x \<in> set sizes. x = PyOther \<or> (\<exists>n. x = PyInt n \<and> n < 1)"
  shows "\<exists>e. Game_init agents_arg board_size_arg = Inl e"
proof (cases "Game_init agents_arg board_size_arg")
  case (Inl e)
  then show ?thesis by blast
next
  case (Inr g)
  then obtain r c where "board_size_arg = Sequence [PyInt r, PyInt c]" "1 \<le> r" "1 \<le> c"
    unfolding Game_init_iff by blast
  with assms show ?thesis by auto
qed

text \<open>
  Claim C6, as amended. The constructor fails, with \<open>TypeError\<close> or \<open>ValueError\<close>, whenever
  fewer than two agents are supplied (then with \<open>ValueError\<close>) and whenever an element of the
  board size is not an integer \<open>\<ge> 1\<close>. Tokens are not compared: the constructor succeeds exactly
  when the agents argument is a list or tuple of at least two agents, whatever their tokens, and
  the board size is a list or tuple of two integers \<open>\<ge> 1\<close>; it then stores both. With valid
  agents and two integer dimensions of which one is below 1 the error is \<open>ValueError\<close>.
\<close>

theorem Game_init_succeeds_iff:
  "(Game_init agents_arg board_size_arg = Inr g \<longleftrightarrow>
      (\<exists>ags r c. agents_arg = Sequence (map IsAgent ags) \<and> 2 \<le> length ags \<and>
         board_size_arg = Sequence [PyInt r, PyInt c] \<and> 1 \<le> r \<and> 1 \<le> c \<and>
         g = \<lparr> agents = ags, game_board_size = (nat r, nat c) \<rparr>)) \<and>
   (\<forall>elements. agents_arg = Sequence elements \<and> length elements < 2 \<longrightarrow>
      Game_init agents_arg board_size_arg = Inl ValueError) \<and>
   (\<forall>sizes. board_size_arg = Sequence sizes \<and>
      (\<exists>x \<in> set sizes. x = PyOther \<or> (\<exists>n. x = PyInt n \<and> n < 1)) \<longrightarrow>
      (\<exists>e. Game_init agents_arg board_size_arg = Inl e)) \<and>
   (\<forall>ags r c. agents_arg = Sequence (map IsAgent ags) \<and> 2 \<le> length ags \<and>
      board_size_arg = Sequence [PyInt r, PyInt c] \<and> (r < 1 \<or> c < 1) \<longrightarrow>
      Game_init agents_arg board_size_arg = Inl ValueError) \<and>
   (\<forall>e. Game_init agents_arg board_size_arg = Inl e \<longrightarrow> e = TypeError \<or> e = ValueError)"
proof (intro conjI allI impI)
  show "Game_init agents_arg board_size_arg = Inr g \<longleftrightarrow>
      (\<exists>ags r c. agents_arg = Sequence (map IsAgent ags) \<and> 2 \<le> length ags \<and>
         board_size_arg = Sequence [PyInt r, PyInt c] \<and> 1 \<le> r \<and> 1 \<le> c \<and>
         g = \<lparr> agents = ags, game_board_size = (nat r, nat c) \<rparr>)"
    by (rule Game_init_iff)
next
  fix elements assume "agents_arg = Sequence elements \<and> length elements < 2"
  then show "Game_init agents_arg board_size_arg = Inl ValueError"
    by (simp add: Game_init_def)
next
  fix sizes
  assume "board_size_arg = Sequence sizes \<and>
      (\<exists>x \<in> set sizes. x = PyOther \<or> (\<exists>n. x = PyInt n \<and> n < 1))"
  then show "\<exists>e. Game_init agents_arg board_size_arg = Inl e"
    using Game_init_bad_dimension by blast
next
  fix ags r c
  assume "agents_arg = Sequence (map IsAgent ags) \<and> 2 \<le> length ags \<and>
      board_size_arg = Sequence [PyInt r, PyInt c] \<and> (r < 1 \<or> c < 1)"
  then show "Game_init agents_arg board_size_arg = Inl ValueError"
    by (auto simp: Game_init_def check_agents_all)
next
  fix e assume "Game_init agents_arg board_size_arg = Inl e"
  then show "e = TypeError \<or> e = ValueError" by (rule Game_init_error)
qed

text \<open>
  Claim C6 as stated fails: two agents with the same token are accepted by the constructor, and
  the state built from their tokens keeps one entry for the token.
\<close>

theorem Game_init_duplicate_tokens_counterexample:
  "token (always ''X'' 4) = token (always ''X'' 1) \<and>
   Game_init (Sequence [IsAgent (always ''X'' 4), IsAgent (always ''X'' 1)])
             (Sequence [PyInt 6, PyInt 7])
     = Inr \<lparr> agents = [always ''X'' 4, always ''X'' 1], game_board_size = (6, 7) \<rparr> \<and>
   token_map (State_init (map token [always ''X'' 4, always ''X'' 1]) (6, 7)) = [(''X'', 1)]"
  by (simp add: Game_init_def always_def State_init_def dict_comp_def upt_rec)

theorem Game_init_succeeds_iff_witness:
  "Game_init (Sequence [IsAgent (always ''X'' 4), IsAgent (always ''O'' 1)])
             (Sequence [PyInt 6, PyInt 7]) = Inr scenario_game \<and>
   Game_init (Sequence [IsAgent (always ''X'' 4)]) (Sequence [PyInt 6, PyInt 7]) = Inl ValueError \<and>
   Game_init (Sequence [IsAgent (always ''X'' 4), IsAgent (always ''O'' 1)])
             (Sequence [PyInt 0, PyInt 7]) = Inl ValueError \<and>
   (\<exists>e. Game_init (Sequence [IsAgent (always ''X'' 4), NotAgent])
                 (Sequence [PyOther, PyInt 0]) = Inl e)"
proof -
  let ?ags = "[always ''X'' 4, always ''O'' 1]"
  let ?two = "Sequence [IsAgent (always ''X'' 4), IsAgent (always ''O'' 1)]"
  let ?one = "Sequence [IsAgent (always ''X'' 4)]"
  let ?mixed = "Sequence [IsAgent (always ''X'' 4), NotAgent :: string agent_arg]"
  have ex: "\<exists>ags r c. ?two = Sequence (map IsAgent ags) \<and> 2 \<le> length ags \<and>
         Sequence [PyInt 6, PyInt 7] = Sequence [PyInt r, PyInt c] \<and> 1 \<le> r \<and> 1 \<le> c \<and>
         scenario_game = \<lparr> agents = ags, game_board_size = (nat r, nat c) \<rparr>"
    by (intro exI[of _ ?ags] exI[of _ 6] exI[of _ 7]) (simp add: scenario_game_def)
  have a: "Game_init ?two (Sequence [PyInt 6, PyInt 7]) = Inr scenario_game"
    using Game_init_succeeds_iff[of ?two "Sequence [PyInt 6, PyInt 7]" scenario_game,
            THEN conjunct1] ex
    by (rule iffD2)
  have b: "Game_init ?one (Sequence [PyInt 6, PyInt 7]) = Inl ValueError"
    using Game_init_succeeds_iff[of ?one "Sequence [PyInt 6, PyInt 7]" scenario_game,
            THEN conjunct2, THEN conjunct1, rule_format, of "[IsAgent (always ''X'' 4)]"]
    by simp
  have c: "Game_init ?two (Sequence [PyInt 0, PyInt 7]) = Inl ValueError"
    using Game_init_succeeds_iff[of ?two "Sequence [PyInt 0, PyInt 7]" scenario_game,
            THEN conjunct2, THEN conjunct2, THEN conjunct2, THEN conjunct1, rule_format,
            of ?ags 0 7]
    by simp
  have d: "\<exists>e. Game_init ?mixed (Sequence [PyOther, PyInt 0]) = Inl e"
    using Game_init_succeeds_iff[of ?mixed "Sequence [PyOther, PyInt 0]" scenario_game,
            THEN conjunct2, THEN conjunct2, THEN conjunct1, rule_format, of "[PyOther, PyInt 0]"]
    by simp
  from a b c d show ?thesis by (intro conjI)
qed

section \<open>The order of turns\<close>

lemma cycle_at_init: "cycle_at xs 0 (cycle_init xs)"
  by (simp add: cycle_at_def cycle_init_def)

lemma cycle_next_at:
  assumes ne: "xs \<noteq> []" and at: "cycle_at xs n c"
  shows "\<exists>c'. cycle_next c = Some (xs ! (n mod length xs), c') \<and> cycle_at xs (Suc n) c'"
proof -
  let ?k = "length xs"
  let ?p = "if n = 0 then 0 else (n - 1) mod ?k + 1"
  have k: "0 < ?k" using ne by simp
  from at have pend: "pending c = drop ?p xs"
    and sav: "saved c = (if first_pass c then take n xs else xs)"
    and fp: "first_pass c \<longrightarrow> n \<le> ?k"
    by (simp_all add: cycle_at_def)
  have ple: "?p \<le> ?k" using k by (simp add: Suc_leI)
  show ?thesis
  proof (cases "?p < ?k")
    case True
    have nmod: "n mod ?k = ?p"
    proof (cases n)
      case 0
      then show ?thesis by simp
    next
      case (Suc m)
      with True have "Suc (m mod ?k) \<noteq> ?k" by simp
      then show ?thesis using Suc by (simp add: mod_Suc)
    qed
    from True have cons: "pending c = xs ! ?p # drop (Suc ?p) xs"
      unfolding pend by (simp add: Cons_nth_drop_Suc)
    let ?c' = "c\<lparr>pending := drop (Suc ?p) xs,
                  saved := (if first_pass c then saved c @ [xs ! ?p] else saved c)\<rparr>"
    have nxt: "cycle_next c = Some (xs ! (n mod ?k), ?c')"
      unfolding nmod by (simp add: cycle_next_def cons)
    have first: "n < ?k \<and> ?p = n" if "first_pass c"
    proof -
      from that fp have "n \<le> ?k" by simp
      moreover have "n \<noteq> ?k"
      proof
        assume "n = ?k"
        with k have "?p = ?k" by simp
        with True show False by simp
      qed
      ultimately have "n < ?k" by simp
      with nmod show ?thesis by simp
    qed
    have "cycle_at xs (Suc n) ?c'"
      unfolding cycle_at_def
    proof (intro conjI)
      show "pending ?c' = drop (if Suc n = 0 then 0 else (Suc n - 1) mod ?k + 1) xs"
        using nmod by simp
      show "saved ?c' = (if first_pass ?c' then take (Suc n) xs else xs)"
        using sav first by (auto simp: take_Suc_conv_app_nth)
      show "first_pass ?c' \<longrightarrow> Suc n \<le> ?k"
        using first by auto
    qed
    with nxt show ?thesis by blast
  next
    case False
    with ple have pk: "?p = ?k" by simp
    have n0: "n \<noteq> 0"
    proof
      assume "n = 0"
      with pk k show False by simp
    qed
    then obtain m where m: "n = Suc m" by (cases n) auto
    from pk m have mk: "Suc (m mod ?k) = ?k" by simp
    then have nmod: "n mod ?k = 0" unfolding m by (simp add: mod_Suc)
    have empty: "pending c = []" unfolding pend pk by simp
    have full: "saved c = xs"
    proof (cases "first_pass c")
      case True
      with fp have "n \<le> ?k" by simp
      with m have "m < ?k" by simp
      with mk m have "n = ?k" by simp
      with sav True show ?thesis by simp
    next
      case False
      with sav show ?thesis by simp
    qed
    from ne obtain x rest where xs: "xs = x # rest" by (cases xs) auto
    let ?c' = "c\<lparr>pending := rest, first_pass := False\<rparr>"
    have nxt: "cycle_next c = Some (xs ! (n mod ?k), ?c')"
      unfolding nmod using xs by (simp add: cycle_next_def empty full)
    have "cycle_at xs (Suc n) ?c'"
      unfolding cycle_at_def using nmod full xs by simp
    with nxt show ?thesis by blast
  qed
qed

lemma turn_agents:
  "cycle_next (l_agents v) = Some (cur, it) \<Longrightarrow> l_agents (snd (turn g v)) = it"
  by (simp add: turn_def Let_def split: sum.splits prod.splits)

lemma turn_asked:
  assumes "cycle_next (l_agents v) = Some (cur, it)"
  shows "asked (snd (turn g v)) = asked v @ [cur] \<or>
         (asked (snd (turn g v)) = asked v \<and> (\<exists>e. fst (turn g v) = Raise e))"
  using assms by (simp add: turn_def Let_def split: sum.splits prod.splits)

lemma final_play: "final (play g sample) = snd (play_loop g (play_start g sample))"
  by (simp add: play_def Let_def split: flow.splits)

lemma turn_order:
  assumes ne: "xs \<noteq> []" and at: "cycle_at xs (length (asked v)) (l_agents v)"
    and ord: "\<forall>t < length (asked v). asked v ! t = xs ! (t mod length xs)"
  shows "(\<forall>t < length (asked (snd (turn g v))).
            asked (snd (turn g v)) ! t = xs ! (t mod length xs)) \<and>
         (fst (turn g v) = Continue \<longrightarrow>
            cycle_at xs (length (asked (snd (turn g v)))) (l_agents (snd (turn g v))))"
proof -
  from cycle_next_at[OF ne at] obtain it where
    nxt: "cycle_next (l_agents v) = Some (xs ! (length (asked v) mod length xs), it)"
    and at': "cycle_at xs (Suc (length (asked v))) it"
    by blast
  let ?cur = "xs ! (length (asked v) mod length xs)"
  have ord': "\<forall>t < length (asked v @ [?cur]). (asked v @ [?cur]) ! t = xs ! (t mod length xs)"
    using ord by (auto simp: nth_append less_Suc_eq)
  from turn_asked[OF nxt, of g] show ?thesis
  proof
    assume eq: "asked (snd (turn g v)) = asked v @ [?cur]"
    with ord' at' turn_agents[OF nxt, of g] show ?thesis by simp
  next
    assume "asked (snd (turn g v)) = asked v \<and> (\<exists>e. fst (turn g v) = Raise e)"
    with ord show ?thesis by auto
  qed
qed

lemma play_loop_order:
  assumes "xs \<noteq> []" "cycle_at xs (length (asked v)) (l_agents v)"
    and "\<forall>t < length (asked v). asked v ! t = xs ! (t mod length xs)"
  shows "\<forall>t < length (asked (snd (play_loop g v))).
           asked (snd (play_loop g v)) ! t = xs ! (t mod length xs)"
  using assms
proof (induction g v rule: play_loop.induct)
  case (1 g v)
  note step = turn_order[OF "1.prems", of g]
  show ?case
  proof (cases "fst (turn g v) = Continue")
    case True
    then have "play_loop g v = play_loop g (snd (turn g v))"
      by (subst play_loop.simps) simp
    moreover have "\<forall>t < length (asked (snd (play_loop g (snd (turn g v))))).
           asked (snd (play_loop g (snd (turn g v)))) ! t = xs ! (t mod length xs)"
      using True step "1.prems"(1) by (intro "1.IH") simp_all
    ultimately show ?thesis by simp
  next
    case False
    then have "play_loop g v = turn g v"
      by (subst play_loop.simps) simp
    with step show ?thesis by simp
  qed
qed

text \<open>
  Claim C9. \<^verbatim>\<open>play\<close> takes one sample of the agents (a permutation, drawn once before the
  loop) and the loop only ever advances the cycle over it: with \<open>k\<close> the number of agents in the
  sample, the agent asked to act on turn \<open>t\<close> (counted from 0) is the one at position \<open>t mod k\<close>
  of the sample. When the agents of the sample are pairwise different, the agent at position \<open>i\<close>
  acts on turn \<open>t\<close> exactly when \<open>t mod k = i\<close>, that is on turns \<open>i, i + k, i + 2k, \<dots>\<close>.
\<close>

theorem play_turn_order:
  assumes "sample \<noteq> []"
  shows "(\<forall>t < length (asked (final (play g sample))).
            asked (final (play g sample)) ! t = sample ! (t mod length sample)) \<and>
         (distinct sample \<longrightarrow>
            (\<forall>t < length (asked (final (play g sample))). \<forall>i < length sample.
               (asked (final (play g sample)) ! t = sample ! i) = (t mod length sample = i)))"
proof -
  have ord: "\<forall>t < length (asked (final (play g sample))).
            asked (final (play g sample)) ! t = sample ! (t mod length sample)"
    unfolding final_play using assms
    by (intro play_loop_order) (simp_all add: play_start_def cycle_at_init)
  moreover have "(asked (final (play g sample)) ! t = sample ! i) = (t mod length sample = i)"
    if "distinct sample" "t < length (asked (final (play g sample)))" "i < length sample" for t i
  proof -
    have "t mod length sample < length sample" using assms by simp
    with that ord show ?thesis by (simp add: nth_eq_iff_index_eq)
  qed
  ultimately show ?thesis by blast
qed

theorem play_turn_order_witness:
  "rev (agents small_game) \<noteq> [] \<and>
   length (asked (final (play small_game (rev (agents small_game))))) = 4 \<and>
   asked (final (play small_game (rev (agents small_game)))) ! 3 = rev (agents small_game) ! 1"
proof -
  have ne: "rev (agents small_game) \<noteq> []" by (simp add: small_game_def)
  have len: "length (asked (final (play small_game (rev (agents small_game))))) = 4"
    by code_simp
  have k: "length (rev (agents small_game)) = 2" by (simp add: small_game_def)
  from play_turn_order[OF ne, of small_game, THEN conjunct1, rule_format, of 3] len
  have "asked (final (play small_game (rev (agents small_game)))) ! 3
          = rev (agents small_game) ! (3 mod length (rev (agents small_game)))"
    by simp
  also have "3 mod length (rev (agents small_game)) = 1" unfolding k by simp
  finally show ?thesis using ne len by simp
qed

section \<open>Termination of play\<close>














section \<open>What play returns\<close>

lemma scan_lines_forms:
  "scan_lines m lines = Inr r \<Longrightarrow> (\<exists>t. r = (Some WIN, Some t)) \<or> r = (None, None)"
  by (induction m lines rule: scan_lines.induct) (auto split: if_splits option.splits)

lemma check_for_outcome_Inr:
  assumes "check_for_outcome s = Inr r"
  shows "(\<exists>t. r = (Some WIN, Some t)) \<or> r = (Some DRAW, None) \<or> r = (None, None)"
proof -
  from assms obtain r' where sc: "scan_lines (token_map s) (generate_lines s) = Inr r'"
    by (cases "scan_lines (token_map s) (generate_lines s)") (auto simp: check_for_outcome_def)
  from scan_lines_forms[OF sc] assms sc show ?thesis
    by (auto simp: check_for_outcome_def split: if_splits)
qed

lemma turn_break_terminal:
  assumes "fst (turn g v) = Break"
  shows "terminal (l_state (snd (turn g v)))"
proof -
  from assms obtain r where r: "check_for_outcome (l_state (snd (turn g v))) = Inr r"
    and "fst r = Some WIN \<or> fst r = Some DRAW"
    by (auto simp: turn_def Let_def split: option.splits sum.splits prod.splits if_splits)
  with check_for_outcome_Inr[OF r] show ?thesis by (auto simp: terminal_def)
qed

lemma turn_outcomes:
  "map fst (agent_outcomes (l_outcome (snd (turn g v)))) = map fst (agent_outcomes (l_outcome v)) \<and>
   (fst (turn g v) = Break \<longrightarrow>
      (\<forall>(a, r) \<in> set (agent_outcomes (l_outcome (snd (turn g v)))). r \<noteq> None))"
  by (auto simp: turn_def Let_def append_to_record_def comp_def case_prod_unfold
      split: option.splits sum.splits prod.splits)

lemma play_loop_outcomes:
  "fst (play_loop g v) \<noteq> Continue \<and>
   map fst (agent_outcomes (l_outcome (snd (play_loop g v))))
     = map fst (agent_outcomes (l_outcome v)) \<and>
   (fst (play_loop g v) = Break \<longrightarrow>
      terminal (l_state (snd (play_loop g v))) \<and>
      (\<forall>(a, r) \<in> set (agent_outcomes (l_outcome (snd (play_loop g v)))). r \<noteq> None))"
proof (induction g v rule: play_loop.induct)
  case (1 g v)
  show ?case
  proof (cases "fst (turn g v) = Continue")
    case True
    then have eq: "play_loop g v = play_loop g (snd (turn g v))"
      by (subst play_loop.simps) simp
    from "1.IH"[OF True] turn_outcomes[of g v] show ?thesis unfolding eq by simp
  next
    case False
    then have "play_loop g v = turn g v"
      by (subst play_loop.simps) simp
    with False turn_outcomes[of g v] turn_break_terminal[of g v] show ?thesis by simp
  qed
qed

text \<open>
  Claim C7, as amended. \<^verbatim>\<open>play\<close> never returns an outcome to its caller: it returns Python's
  \<open>None\<close> or ends with an exception. When it returns, the loop has ended on WIN or DRAW, and
  the outcome (a result for every agent of the game, none of them unset, and the action record)
  has been passed to \<^verbatim>\<open>notify_outcome\<close> of every agent, in the order of the agent list. When
  it ends with an exception, no agent is notified.
\<close>

theorem play_returns_None:
  "(\<forall>out. returned (play g sample) \<noteq> Inr (Some out)) \<and>
   (returned (play g sample) = Inr None \<longrightarrow>
      terminal (l_state (final (play g sample))) \<and>
      notified (play g sample) = map (\<lambda>a. (a, l_outcome (final (play g sample)))) (agents g) \<and>
      map fst (agent_outcomes (l_outcome (final (play g sample)))) = agents g \<and>
      (\<forall>(a, r) \<in> set (agent_outcomes (l_outcome (final (play g sample)))). r \<noteq> None)) \<and>
   ((\<exists>e. returned (play g sample) = Inl e) \<longrightarrow> notified (play g sample) = [])"
proof -
  let ?r = "play_loop g (play_start g sample)"
  note po = play_loop_outcomes[of g "play_start g sample"]
  have keys: "map fst (agent_outcomes (l_outcome (snd ?r))) = agents g"
    using po by (simp add: play_start_def Outcome_init_def comp_def)
  show ?thesis
  proof (cases "fst ?r")
    case (Raise e)
    then show ?thesis by (simp add: play_def Let_def)
  next
    case Break
    with po keys show ?thesis by (simp add: play_def Let_def)
  next
    case Continue
    with po show ?thesis by simp
  qed
qed

text \<open>
  Claim C7 as stated fails: in the scenario of the specification the game terminates with a win of
  X, and the call returns \<open>None\<close>, not the outcome.
\<close>

theorem play_returns_counterexample:
  "terminal (l_state (final (play scenario_game (agents scenario_game)))) \<and>
   returned (play scenario_game (agents scenario_game)) = Inr None \<and>
   returned (play scenario_game (agents scenario_game))
     \<noteq> Inr (Some (l_outcome (final (play scenario_game (agents scenario_game)))))"
proof -
  have "terminal (l_state (final (play scenario_game (agents scenario_game))))"
    by code_simp
  moreover have "case returned (play scenario_game (agents scenario_game)) of
                   Inr None \<Rightarrow> True | _ \<Rightarrow> False"
    by code_simp
  then have "returned (play scenario_game (agents scenario_game)) = Inr None"
    by (auto split: sum.splits option.splits)
  ultimately show ?thesis by simp
qed

theorem play_returns_None_witness:
  "returned (play small_game (agents small_game)) = Inr None \<and>
   notified (play small_game (agents small_game))
     = map (\<lambda>a. (a, l_outcome (final (play small_game (agents small_game))))) (agents small_game) \<and>
   map (\<lambda>(a, out). (token a, map (\<lambda>(b, r). (token b, r)) (agent_outcomes out),
                        map fst (action_record out)))
     (notified (play small_game (agents small_game)))
   = [(''X'', [(''X'', Some DRAW), (''O'', Some DRAW)], [''X'', ''O'', ''X'', ''O'']),
      (''O'', [(''X'', Some DRAW), (''O'', Some DRAW)], [''X'', ''O'', ''X'', ''O''])]"
proof -
  have "case returned (play small_game (agents small_game)) of
          Inr None \<Rightarrow> True | _ \<Rightarrow> False"
    by code_simp
  then have ret: "returned (play small_game (agents small_game)) = Inr None"
    by (auto split: sum.splits option.splits)
  have shown: "map (\<lambda>(a, out). (token a, map (\<lambda>(b, r). (token b, r)) (agent_outcomes out),
                        map fst (action_record out)))
     (notified (play small_game (agents small_game)))
   = [(''X'', [(''X'', Some DRAW), (''O'', Some DRAW)], [''X'', ''O'', ''X'', ''O'']),
      (''O'', [(''X'', Some DRAW), (''O'', Some DRAW)], [''X'', ''O'', ''X'', ''O''])]"
    by code_simp
  from play_returns_None[of small_game "agents small_game"] ret shown
  show ?thesis by blast
qed

text \<open>
  The scenario of the specification on the 6 x 7 board: X plays column 4 and O column 1 in turn;
  with the fourth token of X the game ends, X has won and O has lost, and the record lists the
  seven placements.
\<close>

lemma scenario_vertical_win:
  "map (\<lambda>(a, out). (token a, map (\<lambda>(b, r). (token b, r)) (agent_outcomes out),
                        map fst (action_record out)))
     (notified (play scenario_game (agents scenario_game)))
   = [(''X'', [(''X'', Some WIN), (''O'', Some LOSE)],
              [''X'', ''O'', ''X'', ''O'', ''X'', ''O'', ''X'']),
      (''O'', [(''X'', Some WIN), (''O'', Some LOSE)],
              [''X'', ''O'', ''X'', ''O'', ''X'', ''O'', ''X''])]"
  by code_simp

end
